theory Spec2Isabelle
  imports Complex_Main "HOL-Library.AList" "HOL-Library.Multiset"
begin

section \<open>The document model (types/model.ts, types/threejs.ts)\<close>

text \<open>
  Node identifiers are strings, as in \<^verbatim>\<open>export type NodeId = string\<close>. Numbers are
  modelled as reals: the reducer only stores and copies them. NaN and the infinities,
  which a JSON copy does not preserve, are outside the model.
\<close>

type_synonym NodeId = string

datatype PrimitiveType = box | cylinder | cone | sphere | torus | pyramid

record Vec3 =
  x :: real
  y :: real
  z :: real

record Transform =
  position :: Vec3
  rotation :: Vec3
  scale :: Vec3

text \<open>
  \<^verbatim>\<open>BasePrimitiveProps\<close> is an object of named numeric fields: an association list, in
  insertion order, as a JavaScript object keeps its string keys.
\<close>

type_synonym BasePrimitiveProps = "(string \<times> real) list"

datatype NodeType = primitive | assembly

text \<open>
  A \<^verbatim>\<open>children\<close> array is declared \<^verbatim>\<open>NodeId[]\<close>, but at run time the reducer can
  store \<^verbatim>\<open>undefined\<close> in it (the destructuring of an empty splice result), and a JSON
  copy turns that entry into \<^verbatim>\<open>null\<close>. An entry is therefore an identifier or one of
  these two values.
\<close>

datatype ChildRef = Id NodeId | Undefined | Null

text \<open>
  \<^verbatim>\<open>ModelNode = PrimitiveNode | AssemblyNode\<close> is a union tagged by the field \<^verbatim>\<open>type\<close>.
  The reducer builds nodes with object spreads (\<^verbatim>\<open>{...node, ...action.updates}\<close>), which
  copy whatever fields are there, so a node is modelled as the object it is at run time:
  the shared fields, the tag, and the fields of either variant, absent (\<open>None\<close>) when
  the object does not have them.
\<close>

record ModelNode =
  id_node :: NodeId
  type :: NodeType
  name :: string
  transform :: Transform
  visible :: bool
  primitiveType :: "PrimitiveType option"
  properties :: "BasePrimitiveProps option"
  color :: "string option"
  children :: "ChildRef list option"

text \<open>
  \<^verbatim>\<open>nodes: Record<NodeId, ModelNode>\<close> is an association list in insertion order:
  writing an existing key replaces its value in place, writing a new key appends it
  (\<open>AList.update\<close>), \<^verbatim>\<open>delete\<close> removes the key (\<open>AList.delete\<close>), and a property
  read is \<open>map_of\<close>. Two behaviours of a JavaScript object are outside the model: it
  enumerates the keys that are array indices (\<^verbatim>\<open>"7"\<close>) before the others, whatever the
  order in which they were written, and a property read also finds the keys every object
  inherits (\<^verbatim>\<open>"constructor"\<close>, \<^verbatim>\<open>"toString"\<close>). The order of the keys is therefore only
  stated where no key is written, and the theorems about a node that is not in the table
  are about keys that are not inherited ones.
\<close>

type_synonym Nodes = "(NodeId \<times> ModelNode) list"

record Model =
  rootId :: NodeId
  nodes :: Nodes

record SelectionState =
  selectedNodeId :: "NodeId option"
  hoveredNodeId :: "NodeId option"

datatype ModelState =
  ModelState (model: Model) (selection: SelectionState)
    (history: "ModelState list") (historyIndex: int)

section \<open>Constants (constants/primitives.ts)\<close>

fun PRIMITIVE_DEFAULTS :: "PrimitiveType \<Rightarrow> BasePrimitiveProps" where
  "PRIMITIVE_DEFAULTS box = [(''width'', 1), (''height'', 1), (''depth'', 1)]"
| "PRIMITIVE_DEFAULTS cylinder = [(''radius'', 0.5), (''height'', 1), (''segments'', 32)]"
| "PRIMITIVE_DEFAULTS cone = [(''radius'', 0.5), (''height'', 1), (''segments'', 32)]"
| "PRIMITIVE_DEFAULTS sphere = [(''radius'', 0.5), (''segments'', 32)]"
| "PRIMITIVE_DEFAULTS torus = [(''radius'', 0.5), (''tube'', 0.2), (''segments'', 32)]"
| "PRIMITIVE_DEFAULTS pyramid = [(''width'', 1), (''height'', 1), (''depth'', 1)]"

definition DEFAULT_TRANSFORM :: Transform where
  "DEFAULT_TRANSFORM =
     \<lparr>position = \<lparr>x = 0, y = 0, z = 0\<rparr>,
      rotation = \<lparr>x = 0, y = 0, z = 0\<rparr>,
      scale = \<lparr>x = 1, y = 1, z = 1\<rparr>\<rparr>"

section \<open>Actions (store/modelActions.ts)\<close>

text \<open>
  \<^verbatim>\<open>Partial<ModelNode>\<close>: every field optional; \<open>None\<close> is a key the update does not
  have. (An update that lists a key with the value \<^verbatim>\<open>undefined\<close> is not modelled.)
\<close>

record NodeUpdates =
  u_id :: "NodeId option"
  u_type :: "NodeType option"
  u_name :: "string option"
  u_transform :: "Transform option"
  u_visible :: "bool option"
  u_primitiveType :: "PrimitiveType option"
  u_properties :: "BasePrimitiveProps option"
  u_color :: "string option"
  u_children :: "ChildRef list option"

text \<open>
  The transform of an \<^verbatim>\<open>UPDATE_TRANSFORM\<close> action. Its declared type,
  \<^verbatim>\<open>Partial<Transform>\<close>, makes each of position, rotation and scale optional; the
  reducer spreads each one over the node's vector, so at run time each axis is optional
  too.
\<close>

record PartialVec3 =
  px :: "real option"
  py :: "real option"
  pz :: "real option"

record PartialTransform =
  p_position :: "PartialVec3 option"
  p_rotation :: "PartialVec3 option"
  p_scale :: "PartialVec3 option"

datatype ModelAction =
    ADD_PRIMITIVE NodeId PrimitiveType string
  | ADD_ASSEMBLY NodeId string
  | DELETE_NODE NodeId
  | UPDATE_NODE NodeId NodeUpdates
  | UPDATE_TRANSFORM NodeId PartialTransform
  | REORDER_CHILDREN NodeId int int
  | MOVE_NODE NodeId NodeId
  | SELECT_NODE "NodeId option"
  | RENAME_NODE NodeId string
  | TOGGLE_VISIBILITY NodeId
  | UPDATE_PRIMITIVE_PROPERTIES NodeId BasePrimitiveProps
  | DUPLICATE_NODE NodeId
  | UNDO
  | REDO

fun shouldSaveToHistory :: "ModelAction \<Rightarrow> bool" where
  "shouldSaveToHistory (SELECT_NODE _) = False"
| "shouldSaveToHistory UNDO = False"
| "shouldSaveToHistory REDO = False"
| "shouldSaveToHistory _ = True"

section \<open>Identity generator (utils/uuid.ts)\<close>

text \<open>
  Modelled from the spec: \<^verbatim>\<open>generateId\<close>, whose file is not part of the sources at
  hand. The spec asks only that every call returns a value distinct from every value
  returned before. The generator is a parameter of the model: \<open>gen\<close> is the sequence of
  identifiers it will return, and the number of calls made so far is threaded through
  the reducer as explicit state.
\<close>

type_synonym IdGen = "nat \<Rightarrow> NodeId"

definition generateId :: "IdGen \<Rightarrow> nat \<Rightarrow> NodeId \<times> nat" where
  "generateId gen c = (gen c, Suc c)"

section \<open>Tree query utilities (utils/treeUtils.ts)\<close>

text \<open>
  The children a traversal follows: those of an assembly that has a \<^verbatim>\<open>children\<close> array.
\<close>

definition children_of :: "ModelNode \<Rightarrow> ChildRef list" where
  "children_of n =
     (if type n = assembly then (case children n of Some cs \<Rightarrow> cs | None \<Rightarrow> []) else [])"

text \<open>
  Modelled from the spec: \<^verbatim>\<open>getChildren(nodeId, model)\<close>, the ordered children of a
  node, empty for primitives and childless assemblies.
\<close>

definition getChildren :: "NodeId \<Rightarrow> Model \<Rightarrow> ChildRef list" where
  "getChildren nodeId m = (case map_of (nodes m) nodeId of Some n \<Rightarrow> children_of n | None \<Rightarrow> [])"

text \<open>
  Modelled from the spec: \<^verbatim>\<open>findParent(nodeId, model)\<close> scans all assembly nodes'
  children lists for containment and returns the first assembly found, \<^verbatim>\<open>null\<close>
  when there is none.
\<close>

definition findParent :: "NodeId \<Rightarrow> Model \<Rightarrow> NodeId option" where
  "findParent nodeId m =
     map_option fst (find (\<lambda>(k, n). Id nodeId \<in> set (children_of n)) (nodes m))"

lemma length_delete_less:
  "map_of ns k = Some n \<Longrightarrow> length (AList.delete k ns) < length ns"
proof -
  assume "map_of ns k = Some n"
  then have "(k, n) \<in> set ns" by (rule map_of_SomeD)
  then show ?thesis
    unfolding AList.delete_eq by (intro length_filter_less[of "(k, n)"]) auto
qed

text \<open>
  Modelled from the spec: \<^verbatim>\<open>getDescendants(nodeId, model)\<close>, all transitive children
  of a node. The traversal is depth first, in the order of the children lists; a node
  being expanded is taken out of the table for the traversal below it, so the function
  is total on every model.
\<close>

function descendants :: "Nodes \<Rightarrow> NodeId \<Rightarrow> NodeId list" where
  "descendants ns k =
     (case map_of ns k of
        None \<Rightarrow> []
      | Some n \<Rightarrow>
          concat (map (\<lambda>c. case c of Id i \<Rightarrow> i # descendants (AList.delete k ns) i | _ \<Rightarrow> [])
                      (children_of n)))"
  by pat_completeness auto
termination
  by (relation "measure (\<lambda>(ns, k). length ns)") (auto simp: length_delete_less)

declare descendants.simps [simp del]

definition getDescendants :: "NodeId \<Rightarrow> Model \<Rightarrow> NodeId list" where
  "getDescendants nodeId m = descendants (nodes m) nodeId"

text \<open>
  Modelled from the spec: \<^verbatim>\<open>validateTreeMove(nodeId, candidateParentId, model)\<close> is
  true iff the candidate parent is not the node itself and not any descendant of it.
\<close>

definition validateTreeMove :: "NodeId \<Rightarrow> NodeId \<Rightarrow> Model \<Rightarrow> bool" where
  "validateTreeMove nodeId candidateParentId m =
     (candidateParentId \<noteq> nodeId \<and> candidateParentId \<notin> set (getDescendants nodeId m))"

section \<open>JavaScript array and object operations used by the reducer\<close>

text \<open>
  \<^verbatim>\<open>Array.prototype.splice(start, ...)\<close>: a negative start counts from the end, and the
  start is clamped to the array. Indices are integers here (a fractional index is
  truncated by JavaScript before use).
\<close>

definition splice_start :: "int \<Rightarrow> nat \<Rightarrow> nat" where
  "splice_start i len = (if i < 0 then nat (max (int len + i) 0) else min (nat i) len)"

text \<open>\<^verbatim>\<open>xs.splice(i, 1)\<close>: the removed elements and the array that is left.\<close>

definition splice_remove1 :: "int \<Rightarrow> 'a list \<Rightarrow> 'a list \<times> 'a list" where
  "splice_remove1 i xs =
     (let start = splice_start i (length xs)
      in (take 1 (drop start xs), take start xs @ drop (Suc start) xs))"

text \<open>\<^verbatim>\<open>xs.splice(i, 0, v)\<close>: the array after the insertion.\<close>

definition splice_insert :: "int \<Rightarrow> 'a \<Rightarrow> 'a list \<Rightarrow> 'a list" where
  "splice_insert i v xs =
     (let start = splice_start i (length xs) in take start xs @ v # drop start xs)"

text \<open>\<^verbatim>\<open>xs.slice(0, e)\<close>: a negative end counts from the end of the array.\<close>

definition slice0 :: "int \<Rightarrow> 'a list \<Rightarrow> 'a list" where
  "slice0 e xs = take (if e < 0 then nat (max (int (length xs) + e) 0) else nat e) xs"

text \<open>\<^verbatim>\<open>xs[i]\<close>: \<^verbatim>\<open>undefined\<close> (\<open>None\<close>) outside the array.\<close>

definition index :: "'a list \<Rightarrow> int \<Rightarrow> 'a option" where
  "index xs i = (if 0 \<le> i \<and> i < int (length xs) then Some (xs ! nat i) else None)"

text \<open>The object spread \<^verbatim>\<open>{...a, ...b}\<close> of two objects of named fields.\<close>

definition spread :: "('k \<times> 'v) list \<Rightarrow> ('k \<times> 'v) list \<Rightarrow> ('k \<times> 'v) list" where
  "spread a b = fold (\<lambda>(k, v). AList.update k v) b a"

text \<open>
  \<^verbatim>\<open>JSON.parse(JSON.stringify(nodes))\<close>: the deep copy stored in a history snapshot. In
  an array \<^verbatim>\<open>undefined\<close> is written as \<^verbatim>\<open>null\<close>; every other value of the model is
  copied as it is.
\<close>

fun json_child :: "ChildRef \<Rightarrow> ChildRef" where
  "json_child Undefined = Null"
| "json_child c = c"

definition json_node :: "ModelNode \<Rightarrow> ModelNode" where
  "json_node n = n\<lparr>children := map_option (map json_child) (children n)\<rparr>"

definition json_copy :: "Nodes \<Rightarrow> Nodes" where
  "json_copy ns = map (\<lambda>(k, n). (k, json_node n)) ns"

text \<open>
  A property read \<^verbatim>\<open>nodes[c]\<close> with an entry of a children array as the key: the key
  is the entry converted to a string.
\<close>

fun key_of :: "ChildRef \<Rightarrow> NodeId" where
  "key_of (Id i) = i"
| "key_of Undefined = ''undefined''"
| "key_of Null = ''null''"

text \<open>The identifier an entry holds, \<^verbatim>\<open>null\<close> (\<open>None\<close>) when it holds none.\<close>

fun ref_id :: "ChildRef \<Rightarrow> NodeId option" where
  "ref_id (Id i) = Some i"
| "ref_id _ = None"

section \<open>The reducer (store/modelActions.ts)\<close>

text \<open>
  What a call of the reducer can end in other than a state: a \<^verbatim>\<open>TypeError\<close> (a property
  read on \<^verbatim>\<open>undefined\<close>, or a spread of \<^verbatim>\<open>undefined\<close> into an array), a
  \<^verbatim>\<open>RangeError\<close> (the recursion of the duplication does not end), and, for \<^verbatim>\<open>UNDO\<close>
  and \<^verbatim>\<open>REDO\<close> on a history that has no entry at the index read, an object that has
  neither \<^verbatim>\<open>model\<close> nor \<^verbatim>\<open>selection\<close>.
\<close>

datatype Error = TypeError | RangeError | NotAModelState

type_synonym Result = "Error + ModelState \<times> nat"

definition with_nodes :: "ModelState \<Rightarrow> Nodes \<Rightarrow> ModelState" where
  "with_nodes state ns =
     ModelState ((model state)\<lparr>nodes := ns\<rparr>) (selection state) (history state) (historyIndex state)"

definition reduce_ADD_PRIMITIVE ::
  "IdGen \<Rightarrow> nat \<Rightarrow> ModelState \<Rightarrow> NodeId \<Rightarrow> PrimitiveType \<Rightarrow> string \<Rightarrow> Result" where
  "reduce_ADD_PRIMITIVE gen c state parentId pt nm =
     (case generateId gen c of (newNodeId, c') \<Rightarrow>
      (case map_of (nodes (model state)) parentId of
         None \<Rightarrow> Inl TypeError
       | Some parent \<Rightarrow>
           if type parent \<noteq> assembly then Inr (state, c')
           else
             (case children parent of
                None \<Rightarrow> Inl TypeError
              | Some cs \<Rightarrow>
                  let newPrimitive =
                        \<lparr>id_node = newNodeId, type = primitive, name = nm,
                         transform = DEFAULT_TRANSFORM, visible = True,
                         primitiveType = Some pt, properties = Some (PRIMITIVE_DEFAULTS pt),
                         color = Some ''#ffffff'', children = None\<rparr>
                  in Inr (ModelState
                            ((model state)\<lparr>nodes :=
                               AList.update parentId (parent\<lparr>children := Some (cs @ [Id newNodeId])\<rparr>)
                                 (AList.update newNodeId newPrimitive (nodes (model state)))\<rparr>)
                            ((selection state)\<lparr>selectedNodeId := Some newNodeId\<rparr>)
                            (history state) (historyIndex state), c'))))"

definition reduce_ADD_ASSEMBLY :: "IdGen \<Rightarrow> nat \<Rightarrow> ModelState \<Rightarrow> NodeId \<Rightarrow> string \<Rightarrow> Result" where
  "reduce_ADD_ASSEMBLY gen c state parentId nm =
     (case generateId gen c of (newNodeId, c') \<Rightarrow>
      (case map_of (nodes (model state)) parentId of
         None \<Rightarrow> Inl TypeError
       | Some parent \<Rightarrow>
           if type parent \<noteq> assembly then Inr (state, c')
           else
             (case children parent of
                None \<Rightarrow> Inl TypeError
              | Some cs \<Rightarrow>
                  let newAssembly =
                        \<lparr>id_node = newNodeId, type = assembly, name = nm,
                         transform = DEFAULT_TRANSFORM, visible = True,
                         primitiveType = None, properties = None,
                         color = None, children = Some []\<rparr>
                  in Inr (with_nodes state
                            (AList.update parentId (parent\<lparr>children := Some (cs @ [Id newNodeId])\<rparr>)
                               (AList.update newNodeId newAssembly (nodes (model state)))), c'))))"

text \<open>
  \<^verbatim>\<open>if (parent)\<close> tests a string or \<^verbatim>\<open>null\<close>: the empty string is false as well.
\<close>

definition truthy :: "NodeId option \<Rightarrow> bool" where
  "truthy p = (case p of None \<Rightarrow> False | Some s \<Rightarrow> s \<noteq> [])"

definition reduce_DELETE_NODE :: "nat \<Rightarrow> ModelState \<Rightarrow> NodeId \<Rightarrow> Result" where
  "reduce_DELETE_NODE c state nodeId =
     (case map_of (nodes (model state)) nodeId of
        None \<Rightarrow> Inr (state, c)
      | Some node \<Rightarrow>
          let descendants = getDescendants nodeId (model state);
              allIdsToDelete = nodeId # descendants;
              parent = findParent nodeId (model state)
          in if truthy parent then
               (case map_of (nodes (model state)) (the parent) of
                  None \<Rightarrow> Inl TypeError
                | Some parentNode \<Rightarrow>
                    if type parentNode = assembly then
                      (case children parentNode of
                         None \<Rightarrow> Inl TypeError
                       | Some cs \<Rightarrow>
                           let newChildren = filter (\<lambda>i. i \<noteq> Id nodeId) cs;
                               nodes' = fold AList.delete allIdsToDelete (nodes (model state))
                           in Inr (ModelState
                                     ((model state)\<lparr>nodes :=
                                        AList.update (the parent)
                                          (parentNode\<lparr>children := Some newChildren\<rparr>) nodes'\<rparr>)
                                     (if selectedNodeId (selection state) = Some nodeId
                                      then (selection state)\<lparr>selectedNodeId := None\<rparr>
                                      else selection state)
                                     (history state) (historyIndex state), c))
                    else Inr (state, c))
             else Inr (state, c))"

text \<open>\<^verbatim>\<open>{...node, ...action.updates}\<close>: every key of the update replaces the node's.\<close>

definition merge_updates :: "ModelNode \<Rightarrow> NodeUpdates \<Rightarrow> ModelNode" where
  "merge_updates node u =
     \<lparr>id_node = (case u_id u of Some v \<Rightarrow> v | None \<Rightarrow> id_node node),
      type = (case u_type u of Some v \<Rightarrow> v | None \<Rightarrow> type node),
      name = (case u_name u of Some v \<Rightarrow> v | None \<Rightarrow> name node),
      transform = (case u_transform u of Some v \<Rightarrow> v | None \<Rightarrow> transform node),
      visible = (case u_visible u of Some v \<Rightarrow> v | None \<Rightarrow> visible node),
      primitiveType = (case u_primitiveType u of Some v \<Rightarrow> Some v | None \<Rightarrow> primitiveType node),
      properties = (case u_properties u of Some v \<Rightarrow> Some v | None \<Rightarrow> properties node),
      color = (case u_color u of Some v \<Rightarrow> Some v | None \<Rightarrow> color node),
      children = (case u_children u of Some v \<Rightarrow> Some v | None \<Rightarrow> children node)\<rparr>"

definition reduce_UPDATE_NODE :: "nat \<Rightarrow> ModelState \<Rightarrow> NodeId \<Rightarrow> NodeUpdates \<Rightarrow> Result" where
  "reduce_UPDATE_NODE c state nodeId updates =
     (case map_of (nodes (model state)) nodeId of
        None \<Rightarrow> Inr (state, c)
      | Some node \<Rightarrow>
          Inr (with_nodes state
                 (AList.update nodeId (merge_updates node updates) (nodes (model state))), c))"

text \<open>
  \<^verbatim>\<open>{...v, ...(p || {})}\<close>: the axes the partial vector has replace those of \<open>v\<close>.
\<close>

definition merge_vec :: "Vec3 \<Rightarrow> PartialVec3 option \<Rightarrow> Vec3" where
  "merge_vec v p =
     (case p of
        None \<Rightarrow> v
      | Some q \<Rightarrow>
          \<lparr>x = (case px q of Some a \<Rightarrow> a | None \<Rightarrow> x v),
           y = (case py q of Some a \<Rightarrow> a | None \<Rightarrow> y v),
           z = (case pz q of Some a \<Rightarrow> a | None \<Rightarrow> z v)\<rparr>)"

definition merge_transform :: "Transform \<Rightarrow> PartialTransform \<Rightarrow> Transform" where
  "merge_transform t p =
     \<lparr>position = merge_vec (position t) (p_position p),
      rotation = merge_vec (rotation t) (p_rotation p),
      scale = merge_vec (scale t) (p_scale p)\<rparr>"

definition reduce_UPDATE_TRANSFORM ::
  "nat \<Rightarrow> ModelState \<Rightarrow> NodeId \<Rightarrow> PartialTransform \<Rightarrow> Result" where
  "reduce_UPDATE_TRANSFORM c state nodeId p =
     (case map_of (nodes (model state)) nodeId of
        None \<Rightarrow> Inr (state, c)
      | Some node \<Rightarrow>
          Inr (with_nodes state
                 (AList.update nodeId (node\<lparr>transform := merge_transform (transform node) p\<rparr>)
                    (nodes (model state))), c))"

text \<open>
  \<^verbatim>\<open>const [moved] = newChildren.splice(fromIndex, 1)\<close>: the first removed element,
  \<^verbatim>\<open>undefined\<close> when nothing was removed.
\<close>

definition reorder :: "int \<Rightarrow> int \<Rightarrow> ChildRef list \<Rightarrow> ChildRef list" where
  "reorder fromIndex toIndex cs =
     (case splice_remove1 fromIndex cs of (removed, rest) \<Rightarrow>
        splice_insert toIndex (case removed of [] \<Rightarrow> Undefined | moved # _ \<Rightarrow> moved) rest)"

definition reduce_REORDER_CHILDREN :: "nat \<Rightarrow> ModelState \<Rightarrow> NodeId \<Rightarrow> int \<Rightarrow> int \<Rightarrow> Result" where
  "reduce_REORDER_CHILDREN c state parentId fromIndex toIndex =
     (case map_of (nodes (model state)) parentId of
        None \<Rightarrow> Inl TypeError
      | Some parent \<Rightarrow>
          if type parent \<noteq> assembly then Inr (state, c)
          else
            (case children parent of
               None \<Rightarrow> Inl TypeError
             | Some cs \<Rightarrow>
                 Inr (with_nodes state
                        (AList.update parentId
                           (parent\<lparr>children := Some (reorder fromIndex toIndex cs)\<rparr>)
                           (nodes (model state))), c)))"

text \<open>
  The removal from the old parent, on the copy \<^verbatim>\<open>nodes\<close> of the table.
\<close>

definition remove_from_old_parent :: "Nodes \<Rightarrow> NodeId option \<Rightarrow> NodeId \<Rightarrow> Error + Nodes" where
  "remove_from_old_parent ns oldParent nodeId =
     (if truthy oldParent then
        (case map_of ns (the oldParent) of
           None \<Rightarrow> Inl TypeError
         | Some oldParentNode \<Rightarrow>
             if type oldParentNode = assembly then
               (case children oldParentNode of
                  None \<Rightarrow> Inl TypeError
                | Some cs \<Rightarrow>
                    Inr (AList.update (the oldParent)
                           (oldParentNode\<lparr>children := Some (filter (\<lambda>i. i \<noteq> Id nodeId) cs)\<rparr>) ns))
             else Inr ns)
      else Inr ns)"

definition reduce_MOVE_NODE :: "nat \<Rightarrow> ModelState \<Rightarrow> NodeId \<Rightarrow> NodeId \<Rightarrow> Result" where
  "reduce_MOVE_NODE c state nodeId newParentId =
     (if \<not> validateTreeMove nodeId newParentId (model state) then Inr (state, c)
      else
        let oldParent = findParent nodeId (model state) in
        (case map_of (nodes (model state)) newParentId of
           None \<Rightarrow> Inl TypeError
         | Some newParent \<Rightarrow>
             if type newParent \<noteq> assembly then Inr (state, c)
             else
               (case remove_from_old_parent (nodes (model state)) oldParent nodeId of
                  Inl e \<Rightarrow> Inl e
                | Inr ns \<Rightarrow>
                    (case children newParent of
                       None \<Rightarrow> Inl TypeError
                     | Some cs \<Rightarrow>
                         Inr (with_nodes state
                                (AList.update newParentId
                                   (newParent\<lparr>children := Some (cs @ [Id nodeId])\<rparr>) ns), c)))))"

definition reduce_SELECT_NODE :: "nat \<Rightarrow> ModelState \<Rightarrow> NodeId option \<Rightarrow> Result" where
  "reduce_SELECT_NODE c state nodeId =
     Inr (ModelState (model state) ((selection state)\<lparr>selectedNodeId := nodeId\<rparr>)
            (history state) (historyIndex state), c)"

definition reduce_RENAME_NODE :: "nat \<Rightarrow> ModelState \<Rightarrow> NodeId \<Rightarrow> string \<Rightarrow> Result" where
  "reduce_RENAME_NODE c state nodeId nm =
     (case map_of (nodes (model state)) nodeId of
        None \<Rightarrow> Inr (state, c)
      | Some node \<Rightarrow>
          Inr (with_nodes state (AList.update nodeId (node\<lparr>name := nm\<rparr>) (nodes (model state))), c))"

definition reduce_TOGGLE_VISIBILITY :: "nat \<Rightarrow> ModelState \<Rightarrow> NodeId \<Rightarrow> Result" where
  "reduce_TOGGLE_VISIBILITY c state nodeId =
     (case map_of (nodes (model state)) nodeId of
        None \<Rightarrow> Inr (state, c)
      | Some node \<Rightarrow>
          Inr (with_nodes state
                 (AList.update nodeId (node\<lparr>visible := \<not> visible node\<rparr>) (nodes (model state))), c))"

definition reduce_UPDATE_PRIMITIVE_PROPERTIES ::
  "nat \<Rightarrow> ModelState \<Rightarrow> NodeId \<Rightarrow> BasePrimitiveProps \<Rightarrow> Result" where
  "reduce_UPDATE_PRIMITIVE_PROPERTIES c state nodeId props =
     (case map_of (nodes (model state)) nodeId of
        None \<Rightarrow> Inr (state, c)
      | Some node \<Rightarrow>
          if type node \<noteq> primitive then Inr (state, c)
          else
            Inr (with_nodes state
                   (AList.update nodeId
                      (node\<lparr>properties :=
                         Some (spread (case properties node of None \<Rightarrow> [] | Some ps \<Rightarrow> ps) props)\<rparr>)
                      (nodes (model state))), c))"

text \<open>
  The recursive closure \<^verbatim>\<open>duplicateNode(sourceId, newParentId, nodes)\<close>. It mutates the
  table it is given and draws identifiers, so the table and the generator's count are
  passed through it; \<open>duplicateChildren\<close> is its \<^verbatim>\<open>for\<close> loop over the children, with
  \<^verbatim>\<open>newChildren\<close> as accumulator. The source puts no bound on the recursion: on children
  lists with a cycle it does not return, and the engine ends it with a \<^verbatim>\<open>RangeError\<close>.
  The first argument after the generator is the depth the recursion may still reach.
\<close>

fun duplicateNode ::
    "IdGen \<Rightarrow> nat \<Rightarrow> ChildRef \<Rightarrow> NodeId \<Rightarrow> Nodes \<times> nat \<Rightarrow> Error + ChildRef \<times> Nodes \<times> nat"
  and duplicateChildren ::
    "IdGen \<Rightarrow> nat \<Rightarrow> ChildRef list \<Rightarrow> NodeId \<Rightarrow> ChildRef list \<Rightarrow> Nodes \<times> nat
       \<Rightarrow> Error + ChildRef list \<times> Nodes \<times> nat"
where
  "duplicateNode gen 0 sourceId newParentId (ns, c) = Inl RangeError"
| "duplicateNode gen (Suc depth) sourceId newParentId (ns, c) =
     (case map_of ns (key_of sourceId) of
        None \<Rightarrow> Inr (sourceId, ns, c)
      | Some sourceNode \<Rightarrow>
          (case generateId gen c of (newId, c1) \<Rightarrow>
            (case
               (if type sourceNode = primitive then
                  Inr (AList.update newId
                         (sourceNode\<lparr>id_node := newId, name := name sourceNode @ '' (copy)'',
                                     color := color sourceNode\<rparr>) ns, c1)
                else
                  (case children sourceNode of
                     None \<Rightarrow> Inl TypeError
                   | Some cs \<Rightarrow>
                       (case duplicateChildren gen depth cs newId []
                               (AList.update newId
                                  (sourceNode\<lparr>id_node := newId,
                                              name := name sourceNode @ '' (copy)'',
                                              children := Some []\<rparr>) ns, c1) of
                          Inl e \<Rightarrow> Inl e
                        | Inr (newChildren, ns2, c2) \<Rightarrow>
                            (case map_of ns2 newId of
                               None \<Rightarrow> Inl TypeError
                             | Some duplicatedAssembly \<Rightarrow>
                                 if type duplicatedAssembly = assembly then
                                   Inr (AList.update newId
                                          (duplicatedAssembly\<lparr>children := Some newChildren\<rparr>) ns2, c2)
                                 else Inr (ns2, c2)))))
             of
               Inl e \<Rightarrow> Inl e
             | Inr (ns3, c3) \<Rightarrow>
                 (case map_of ns3 newParentId of
                    None \<Rightarrow> Inr (Id newId, ns3, c3)
                  | Some newParentNode \<Rightarrow>
                      if type newParentNode = assembly then
                        (case children newParentNode of
                           None \<Rightarrow> Inl TypeError
                         | Some pcs \<Rightarrow>
                             Inr (Id newId,
                                  AList.update newParentId
                                    (newParentNode\<lparr>children := Some (pcs @ [Id newId])\<rparr>) ns3, c3))
                      else Inr (Id newId, ns3, c3)))))"
| "duplicateChildren gen depth [] newId newChildren (ns, c) = Inr (newChildren, ns, c)"
| "duplicateChildren gen depth (childId # rest) newId newChildren (ns, c) =
     (case duplicateNode gen depth childId newId (ns, c) of
        Inl e \<Rightarrow> Inl e
      | Inr (duplicatedChildId, ns', c') \<Rightarrow>
          duplicateChildren gen depth rest newId (newChildren @ [duplicatedChildId]) (ns', c'))"

text \<open>
  The reducer's call of the closure. A subtree without a cycle is never deeper than the
  table has nodes, so with this depth the \<^verbatim>\<open>RangeError\<close> stands for the recursion that
  does not end.
\<close>

definition reduce_DUPLICATE_NODE :: "IdGen \<Rightarrow> nat \<Rightarrow> ModelState \<Rightarrow> NodeId \<Rightarrow> Result" where
  "reduce_DUPLICATE_NODE gen c state nodeId =
     (case map_of (nodes (model state)) nodeId of
        None \<Rightarrow> Inr (state, c)
      | Some node \<Rightarrow>
          if nodeId = rootId (model state) then Inr (state, c)
          else
            let parent = findParent nodeId (model state) in
            if \<not> truthy parent then Inr (state, c)
            else
              (case map_of (nodes (model state)) (the parent) of
                 None \<Rightarrow> Inl TypeError
               | Some parentNode \<Rightarrow>
                   if type parentNode \<noteq> assembly then Inr (state, c)
                   else
                     (case duplicateNode gen (Suc (length (nodes (model state)))) (Id nodeId)
                             (the parent) (nodes (model state), c) of
                        Inl e \<Rightarrow> Inl e
                      | Inr (duplicatedId, newNodes, c') \<Rightarrow>
                          Inr (ModelState ((model state)\<lparr>nodes := newNodes\<rparr>)
                                 ((selection state)\<lparr>selectedNodeId := ref_id duplicatedId\<rparr>)
                                 (history state) (historyIndex state), c'))))"

text \<open>The \<^verbatim>\<open>switch\<close> of the reducer: the state after the action, before the history step.\<close>

fun applyAction :: "IdGen \<Rightarrow> nat \<Rightarrow> ModelState \<Rightarrow> ModelAction \<Rightarrow> Result" where
  "applyAction gen c state (ADD_PRIMITIVE parentId pt nm) = reduce_ADD_PRIMITIVE gen c state parentId pt nm"
| "applyAction gen c state (ADD_ASSEMBLY parentId nm) = reduce_ADD_ASSEMBLY gen c state parentId nm"
| "applyAction gen c state (DELETE_NODE nodeId) = reduce_DELETE_NODE c state nodeId"
| "applyAction gen c state (UPDATE_NODE nodeId updates) = reduce_UPDATE_NODE c state nodeId updates"
| "applyAction gen c state (UPDATE_TRANSFORM nodeId p) = reduce_UPDATE_TRANSFORM c state nodeId p"
| "applyAction gen c state (REORDER_CHILDREN parentId fromIndex toIndex) =
     reduce_REORDER_CHILDREN c state parentId fromIndex toIndex"
| "applyAction gen c state (MOVE_NODE nodeId newParentId) = reduce_MOVE_NODE c state nodeId newParentId"
| "applyAction gen c state (SELECT_NODE nodeId) = reduce_SELECT_NODE c state nodeId"
| "applyAction gen c state (RENAME_NODE nodeId nm) = reduce_RENAME_NODE c state nodeId nm"
| "applyAction gen c state (TOGGLE_VISIBILITY nodeId) = reduce_TOGGLE_VISIBILITY c state nodeId"
| "applyAction gen c state (UPDATE_PRIMITIVE_PROPERTIES nodeId props) =
     reduce_UPDATE_PRIMITIVE_PROPERTIES c state nodeId props"
| "applyAction gen c state (DUPLICATE_NODE nodeId) = reduce_DUPLICATE_NODE gen c state nodeId"
| "applyAction gen c state UNDO = Inr (state, c)"
| "applyAction gen c state REDO = Inr (state, c)"

text \<open>The snapshot of a state: its model with a JSON copy of the nodes, its selection, no history.\<close>

definition snapshot :: "ModelState \<Rightarrow> ModelState" where
  "snapshot newState =
     ModelState ((model newState)\<lparr>nodes := json_copy (nodes (model newState))\<rparr>)
       (selection newState) [] (- 1)"

text \<open>
  The history step at the end of the reducer: \<open>state\<close> is the state the reducer was
  called with, \<open>newState\<close> the state after the action.
\<close>

definition saveToHistory :: "ModelState \<Rightarrow> ModelState \<Rightarrow> ModelState" where
  "saveToHistory state newState =
     (let trimmedHistory = slice0 (historyIndex state + 1) (history state) @ [snapshot newState]
      in if length trimmedHistory > 50
         then ModelState (model newState) (selection newState) (tl trimmedHistory) 49
         else ModelState (model newState) (selection newState) trimmedHistory
                (int (length trimmedHistory) - 1))"

definition reduce_UNDO :: "nat \<Rightarrow> ModelState \<Rightarrow> Result" where
  "reduce_UNDO c state =
     (if historyIndex state > 0 then
        (case index (history state) (historyIndex state - 1) of
           None \<Rightarrow> Inl NotAModelState
         | Some previousState \<Rightarrow>
             Inr (ModelState (model previousState) (selection previousState)
                    (history state) (historyIndex state - 1), c))
      else Inr (state, c))"

definition reduce_REDO :: "nat \<Rightarrow> ModelState \<Rightarrow> Result" where
  "reduce_REDO c state =
     (if historyIndex state < int (length (history state)) - 1 then
        (case index (history state) (historyIndex state + 1) of
           None \<Rightarrow> Inl NotAModelState
         | Some nextState \<Rightarrow>
             Inr (ModelState (model nextState) (selection nextState)
                    (history state) (historyIndex state + 1), c))
      else Inr (state, c))"

text \<open>
  \<^verbatim>\<open>modelReducer(state, action)\<close>. \<open>gen\<close> and \<open>c\<close> are the identity generator and the
  number of identifiers it has given out; the result is an error, or the new state with
  the new count. \<^verbatim>\<open>SELECT_NODE\<close> returns from inside the \<^verbatim>\<open>switch\<close>; that is the branch
  in which the history step is skipped.
\<close>

definition modelReducer :: "IdGen \<Rightarrow> nat \<Rightarrow> ModelState \<Rightarrow> ModelAction \<Rightarrow> Result" where
  "modelReducer gen c state action =
     (if action = UNDO then reduce_UNDO c state
      else if action = REDO then reduce_REDO c state
      else
        (case applyAction gen c state action of
           Inl e \<Rightarrow> Inl e
         | Inr (newState, c') \<Rightarrow>
             if shouldSaveToHistory action then Inr (saveToHistory state newState, c')
             else Inr (newState, c')))"

definition createInitialState :: "IdGen \<Rightarrow> nat \<Rightarrow> ModelState \<times> nat" where
  "createInitialState gen c =
     (case generateId gen c of (rid, c') \<Rightarrow>
        let rootNode =
              \<lparr>id_node = rid, type = assembly, name = ''Root'',
               transform = DEFAULT_TRANSFORM, visible = True,
               primitiveType = None, properties = None, color = None, children = Some []\<rparr>;
            initialModel = \<lparr>rootId = rid, nodes = [(rid, rootNode)]\<rparr>;
            initialSelection = \<lparr>selectedNodeId = None, hoveredNodeId = None\<rparr>;
            initialSnapshot =
              ModelState (initialModel\<lparr>nodes := json_copy (nodes initialModel)\<rparr>)
                initialSelection [] (- 1)
        in (ModelState initialModel initialSelection [initialSnapshot] 0, c'))"

section \<open>Dispatching sequences of actions\<close>

text \<open>
  The host dispatches one action after the other, each on the state the one before
  returned; an error ends the sequence.
\<close>

fun dispatch_all :: "IdGen \<Rightarrow> nat \<Rightarrow> ModelState \<Rightarrow> ModelAction list \<Rightarrow> Result" where
  "dispatch_all gen c state [] = Inr (state, c)"
| "dispatch_all gen c state (a # as) =
     (case modelReducer gen c state a of
        Inl e \<Rightarrow> Inl e
      | Inr (state', c') \<Rightarrow> dispatch_all gen c' state' as)"

text \<open>
  An identity generator for the examples: its identifiers are \<open>''n''\<close>, \<open>''ni''\<close>,
  \<open>''nii''\<close>, and so on. \<open>example_initial\<close> is the initial state it gives; the root
  is \<open>''n''\<close>, and one identifier has been drawn.
\<close>

definition tally_ids :: IdGen where
  "tally_ids n = CHR ''n'' # replicate n CHR ''i''"

definition example_initial :: ModelState where
  "example_initial = fst (createInitialState tally_ids 0)"

definition example_root :: ModelNode where
  "example_root =
     \<lparr>id_node = ''n'', type = assembly, name = ''Root'',
      transform = DEFAULT_TRANSFORM, visible = True,
      primitiveType = None, properties = None, color = None, children = Some []\<rparr>"

text \<open>
  The state after \<^verbatim>\<open>ADD_ASSEMBLY\<close> under the root of the initial state: the root has the
  one child \<open>''ni''\<close>, and two identifiers have been drawn.
\<close>

definition example_one_child :: ModelState where
  "example_one_child =
     (case modelReducer tally_ids 1 example_initial (ADD_ASSEMBLY ''n'' ''Assembly 1'') of
        Inr (state, c) \<Rightarrow> state
      | Inl e \<Rightarrow> example_initial)"

text \<open>
  The state after adding an assembly under the root and a primitive in the assembly: the
  root \<open>''n''\<close> has the child \<open>''ni''\<close>, which has the child \<open>''nii''\<close>; the
  primitive is selected, and three identifiers have been drawn.
\<close>

definition example_nested :: ModelState where
  "example_nested =
     (case dispatch_all tally_ids 1 example_initial
             [ADD_ASSEMBLY ''n'' ''Assembly 1'', ADD_PRIMITIVE ''ni'' box ''Mesh 1''] of
        Inr (state, c) \<Rightarrow> state
      | Inl e \<Rightarrow> example_initial)"

definition example_assembly :: ModelNode where
  "example_assembly =
     \<lparr>id_node = ''ni'', type = assembly, name = ''Assembly 1'',
      transform = DEFAULT_TRANSFORM, visible = True,
      primitiveType = None, properties = None, color = None, children = Some [Id ''nii'']\<rparr>"

section \<open>Basic facts about the state and the table of nodes\<close>

lemma map_of_update_other: "k \<noteq> k' \<Longrightarrow> map_of (AList.update k' v al) k = map_of al k"
  by (simp add: update_conv')

lemma keys_update_present:
  "map_of al k = Some v \<Longrightarrow> map fst (AList.update k v' al) = map fst al"
  by (auto simp: update_keys dest: map_of_SomeD intro: rev_image_eqI)

lemma model_saveToHistory [simp]: "model (saveToHistory s s') = model s'"
  by (simp add: saveToHistory_def Let_def)

lemma selection_saveToHistory [simp]: "selection (saveToHistory s s') = selection s'"
  by (simp add: saveToHistory_def Let_def)

lemma model_with_nodes [simp]: "model (with_nodes s ns) = (model s)\<lparr>nodes := ns\<rparr>"
  by (simp add: with_nodes_def)

lemma selection_with_nodes [simp]: "selection (with_nodes s ns) = selection s"
  by (simp add: with_nodes_def)

section \<open>Actions that name a missing node\<close>

text \<open>
  C3 (totality, no throw). The claim is that the reducer never raises, and that an action
  naming a node that is not in \<open>nodes\<close> is a silent no-op. The code reads
  \<^verbatim>\<open>parent.type\<close> without testing \<open>parent\<close> in \<^verbatim>\<open>ADD_PRIMITIVE\<close>, \<^verbatim>\<open>ADD_ASSEMBLY\<close>
  and \<^verbatim>\<open>REORDER_CHILDREN\<close> (and \<^verbatim>\<open>newParent.type\<close> in \<^verbatim>\<open>MOVE_NODE\<close>), although the
  other cases test \<^verbatim>\<open>if (!node)\<close> first. In the initial state, whose only node is the
  root \<open>''n''\<close>, adding a primitive under the missing parent \<open>''missing''\<close> ends in a
  \<^verbatim>\<open>TypeError\<close>.
\<close>

theorem add_primitive_missing_parent_throws:
  "modelReducer tally_ids 1 example_initial (ADD_PRIMITIVE ''missing'' box ''Mesh 1'')
     = Inl TypeError"
  by code_simp

section \<open>Rejected moves\<close>

text \<open>
  C2 (cycle-move atomicity), as amended. When \<open>validateTreeMove\<close> fails, the reducer leaves
  the model and the selection as they were, and still runs the history step, because
  \<^verbatim>\<open>MOVE_NODE\<close> is saved to the history whatever it did: the history of the state returned
  is the history cut after the index with a snapshot of the unchanged state appended,
  without its oldest entry when that makes more than 50 entries; the snapshot is its last
  entry; and the index is that of the snapshot when nothing was dropped, and 49 otherwise.
\<close>

theorem rejected_move_keeps_model_and_selection:
  assumes "\<not> validateTreeMove nodeId newParentId (model state)"
  shows "modelReducer gen c state (MOVE_NODE nodeId newParentId)
           = Inr (saveToHistory state state, c)
         \<and> model (saveToHistory state state) = model state
         \<and> selection (saveToHistory state state) = selection state
         \<and> history (saveToHistory state state)
             = (let h = slice0 (historyIndex state + 1) (history state) @ [snapshot state]
                in if length h > 50 then tl h else h)
         \<and> historyIndex (saveToHistory state state)
             = (let h = slice0 (historyIndex state + 1) (history state) @ [snapshot state]
                in if length h > 50 then 49 else int (length h) - 1)
         \<and> last (history (saveToHistory state state)) = snapshot state"
proof -
  let ?xs = "slice0 (historyIndex state + 1) (history state)"
  have "last (tl (?xs @ [snapshot state])) = snapshot state" if "50 < length (?xs @ [snapshot state])"
  proof -
    have "?xs \<noteq> []" using that by auto
    then show ?thesis by simp
  qed
  then have "last (history (saveToHistory state state)) = snapshot state"
    by (simp add: saveToHistory_def Let_def)
  then show ?thesis
    using assms
    by (simp add: modelReducer_def reduce_MOVE_NODE_def) (simp add: saveToHistory_def Let_def)
qed

text \<open>
  Witness: moving the root of the initial state into itself. The history gets a second
  entry, and the index moves to it.
\<close>

theorem rejected_move_witness:
  "\<not> validateTreeMove ''n'' ''n'' (model example_initial)
   \<and> modelReducer tally_ids 1 example_initial (MOVE_NODE ''n'' ''n'')
       = Inr (saveToHistory example_initial example_initial, 1)
   \<and> model (saveToHistory example_initial example_initial) = model example_initial
   \<and> selection (saveToHistory example_initial example_initial) = selection example_initial
   \<and> history (saveToHistory example_initial example_initial)
       = [snapshot example_initial, snapshot example_initial]
   \<and> historyIndex (saveToHistory example_initial example_initial) = 1
   \<and> last (history (saveToHistory example_initial example_initial)) = snapshot example_initial"
proof -
  have h: "\<not> validateTreeMove ''n'' ''n'' (model example_initial)"
    by (simp add: validateTreeMove_def)
  have i: "historyIndex example_initial = 0" by code_simp
  have s: "history example_initial = [snapshot example_initial]" by code_simp
  have l: "slice0 1 [snapshot example_initial] = [snapshot example_initial]"
    by (simp add: slice0_def)
  show ?thesis
    using h rejected_move_keeps_model_and_selection [OF h, of tally_ids 1]
    by (simp add: i Let_def l) (simp add: s l)
qed

text \<open>
  Counterexample to C2 as stated: the move of the root of the initial state into itself is
  rejected, and the state returned is not the state given (its history has a second
  entry).
\<close>

theorem rejected_move_changes_history:
  "\<not> validateTreeMove ''n'' ''n'' (model example_initial)
   \<and> modelReducer tally_ids 1 example_initial (MOVE_NODE ''n'' ''n'') \<noteq> Inr (example_initial, 1)
   \<and> map_sum id (\<lambda>r. length (history (fst r)))
        (modelReducer tally_ids 1 example_initial (MOVE_NODE ''n'' ''n'')) = Inr 2
   \<and> length (history example_initial) = 1"
  by code_simp

lemma map_of_fold_delete:
  "map_of (fold AList.delete ks ns) k = (if k \<in> set ks then None else map_of ns k)"
  by (induction ks arbitrary: ns) (auto simp: delete_conv')

lemma distinct_fold_delete:
  "distinct (map fst ns) \<Longrightarrow> distinct (map fst (fold AList.delete ks ns))"
  by (induction ks arbitrary: ns) (auto simp: distinct_delete)

lemma keys_fold_delete:
  "map fst (fold AList.delete ks ns) = filter (\<lambda>k. k \<notin> set ks) (map fst ns)"
proof (induction ks arbitrary: ns)
  case Nil
  then show ?case by simp
next
  case (Cons a ks)
  have "map fst (AList.delete a ns) = filter (\<lambda>k. k \<noteq> a) (map fst ns)"
    by (induction ns) auto
  then show ?case using Cons by (auto simp: conj_commute)
qed

lemma length_filter_notin:
  assumes "distinct xs" and "D \<subseteq> set xs" and "finite D"
  shows "length (filter (\<lambda>k. k \<notin> D) xs) + card D = length xs"
proof -
  have "set (filter (\<lambda>k. k \<in> D) xs) = D" using assms(2) by auto
  moreover have "distinct (filter (\<lambda>k. k \<in> D) xs)" using assms(1) by simp
  ultimately have "length (filter (\<lambda>k. k \<in> D) xs) = card D"
    by (metis distinct_card)
  moreover have "length (filter (\<lambda>k. k \<in> D) xs) + length (filter (\<lambda>k. k \<notin> D) xs) = length xs"
    by (rule sum_length_filter_compl)
  ultimately show ?thesis by simp
qed

lemma find_SomeD:
  "find P xs = Some a \<Longrightarrow> a \<in> set xs \<and> P a"
  by (auto simp: find_Some_iff)

lemma findParent_SomeD:
  assumes "findParent k m = Some p" and "distinct (map fst (nodes m))"
  shows "\<exists>n. map_of (nodes m) p = Some n \<and> Id k \<in> set (children_of n)"
proof -
  from assms(1) obtain e where e: "find (\<lambda>(j, n). Id k \<in> set (children_of n)) (nodes m) = Some e"
    and p: "p = fst e"
    by (auto simp: findParent_def)
  from find_SomeD [OF e] have "e \<in> set (nodes m)" "Id k \<in> set (children_of (snd e))"
    by (auto simp: case_prod_beta)
  then show ?thesis using assms(2) p by (cases e) auto
qed

lemma children_of_nonempty:
  "c \<in> set (children_of n) \<Longrightarrow> type n = assembly \<and> children n = Some (children_of n)"
  by (cases "type n = assembly"; cases "children n") (simp_all add: children_of_def)


section \<open>Transform updates\<close>

text \<open>
  C8 (transform sub-field merge, frame property). For an existing node, \<^verbatim>\<open>UPDATE_TRANSFORM\<close>
  returns a state in which the node is the old node with a new transform and every other
  field as before; every other node, the order of the keys, the root and the selection are
  unchanged. In the new transform each of position, rotation and scale that the partial
  transform does not have is the old one, and of one it has, each axis present takes the
  given value and each axis absent keeps its old value.
\<close>

theorem update_transform_frame:
  assumes "map_of (nodes (model state)) nodeId = Some node"
  shows "\<exists>state'. modelReducer gen c state (UPDATE_TRANSFORM nodeId p) = Inr (state', c)
     \<and> map_of (nodes (model state')) nodeId
         = Some (node\<lparr>transform := merge_transform (transform node) p\<rparr>)
     \<and> (\<forall>k. k \<noteq> nodeId \<longrightarrow> map_of (nodes (model state')) k = map_of (nodes (model state)) k)
     \<and> map fst (nodes (model state')) = map fst (nodes (model state))
     \<and> rootId (model state') = rootId (model state)
     \<and> selection state' = selection state
     \<and> (case p_position p of
           None \<Rightarrow> position (merge_transform (transform node) p) = position (transform node)
         | Some q \<Rightarrow>
             x (position (merge_transform (transform node) p))
               = (case px q of Some a \<Rightarrow> a | None \<Rightarrow> x (position (transform node)))
           \<and> y (position (merge_transform (transform node) p))
               = (case py q of Some a \<Rightarrow> a | None \<Rightarrow> y (position (transform node)))
           \<and> z (position (merge_transform (transform node) p))
               = (case pz q of Some a \<Rightarrow> a | None \<Rightarrow> z (position (transform node))))
     \<and> (case p_rotation p of
           None \<Rightarrow> rotation (merge_transform (transform node) p) = rotation (transform node)
         | Some q \<Rightarrow>
             x (rotation (merge_transform (transform node) p))
               = (case px q of Some a \<Rightarrow> a | None \<Rightarrow> x (rotation (transform node)))
           \<and> y (rotation (merge_transform (transform node) p))
               = (case py q of Some a \<Rightarrow> a | None \<Rightarrow> y (rotation (transform node)))
           \<and> z (rotation (merge_transform (transform node) p))
               = (case pz q of Some a \<Rightarrow> a | None \<Rightarrow> z (rotation (transform node))))
     \<and> (case p_scale p of
           None \<Rightarrow> scale (merge_transform (transform node) p) = scale (transform node)
         | Some q \<Rightarrow>
             x (scale (merge_transform (transform node) p))
               = (case px q of Some a \<Rightarrow> a | None \<Rightarrow> x (scale (transform node)))
           \<and> y (scale (merge_transform (transform node) p))
               = (case py q of Some a \<Rightarrow> a | None \<Rightarrow> y (scale (transform node)))
           \<and> z (scale (merge_transform (transform node) p))
               = (case pz q of Some a \<Rightarrow> a | None \<Rightarrow> z (scale (transform node))))"
proof -
  let ?t = "merge_transform (transform node) p"
  let ?ns = "AList.update nodeId (node\<lparr>transform := ?t\<rparr>) (nodes (model state))"
  let ?s = "saveToHistory state (with_nodes state ?ns)"
  have r: "modelReducer gen c state (UPDATE_TRANSFORM nodeId p) = Inr (?s, c)"
    using assms by (simp add: modelReducer_def reduce_UPDATE_TRANSFORM_def)
  have n: "nodes (model ?s) = ?ns" by simp
  have a: "map_of (nodes (model ?s)) nodeId = Some (node\<lparr>transform := ?t\<rparr>)"
    by (simp add: update_conv')
  have b: "\<forall>k. k \<noteq> nodeId \<longrightarrow> map_of (nodes (model ?s)) k = map_of (nodes (model state)) k"
    by (simp add: update_conv')
  have k: "map fst (nodes (model ?s)) = map fst (nodes (model state))"
    using assms by (simp add: keys_update_present)
  have d: "rootId (model ?s) = rootId (model state)" "selection ?s = selection state"
    by simp_all
  have p1: "case p_position p of
           None \<Rightarrow> position ?t = position (transform node)
         | Some q \<Rightarrow>
             x (position ?t) = (case px q of Some a \<Rightarrow> a | None \<Rightarrow> x (position (transform node)))
           \<and> y (position ?t) = (case py q of Some a \<Rightarrow> a | None \<Rightarrow> y (position (transform node)))
           \<and> z (position ?t) = (case pz q of Some a \<Rightarrow> a | None \<Rightarrow> z (position (transform node)))"
    by (simp add: merge_transform_def merge_vec_def split: option.splits)
  have p2: "case p_rotation p of
           None \<Rightarrow> rotation ?t = rotation (transform node)
         | Some q \<Rightarrow>
             x (rotation ?t) = (case px q of Some a \<Rightarrow> a | None \<Rightarrow> x (rotation (transform node)))
           \<and> y (rotation ?t) = (case py q of Some a \<Rightarrow> a | None \<Rightarrow> y (rotation (transform node)))
           \<and> z (rotation ?t) = (case pz q of Some a \<Rightarrow> a | None \<Rightarrow> z (rotation (transform node)))"
    by (simp add: merge_transform_def merge_vec_def split: option.splits)
  have p3: "case p_scale p of
           None \<Rightarrow> scale ?t = scale (transform node)
         | Some q \<Rightarrow>
             x (scale ?t) = (case px q of Some a \<Rightarrow> a | None \<Rightarrow> x (scale (transform node)))
           \<and> y (scale ?t) = (case py q of Some a \<Rightarrow> a | None \<Rightarrow> y (scale (transform node)))
           \<and> z (scale ?t) = (case pz q of Some a \<Rightarrow> a | None \<Rightarrow> z (scale (transform node)))"
    by (simp add: merge_transform_def merge_vec_def split: option.splits)
  show ?thesis
    by (rule exI[of _ ?s]) (intro conjI r a b k d p1 p2 p3)
qed


text \<open>
  Witness: the partial transform \<^verbatim>\<open>{position: {x: 5}}\<close> on the root of the initial state
  changes \<open>position.x\<close> only.
\<close>

theorem update_transform_frame_witness:
  "map_of (nodes (model example_initial)) ''n'' = Some example_root
   \<and> (\<exists>state' node'.
         modelReducer tally_ids 1 example_initial
           (UPDATE_TRANSFORM ''n''
              \<lparr>p_position = Some \<lparr>px = Some 5, py = None, pz = None\<rparr>,
               p_rotation = None, p_scale = None\<rparr>) = Inr (state', 1)
       \<and> map_of (nodes (model state')) ''n'' = Some node'
       \<and> position (transform node') = \<lparr>x = 5, y = 0, z = 0\<rparr>
       \<and> rotation (transform node') = \<lparr>x = 0, y = 0, z = 0\<rparr>
       \<and> scale (transform node') = \<lparr>x = 1, y = 1, z = 1\<rparr>
       \<and> children node' = Some [])"
proof -
  let ?root = "example_root"
  let ?p = "\<lparr>p_position = Some \<lparr>px = Some 5, py = None, pz = None\<rparr>,
             p_rotation = None, p_scale = None\<rparr>"
  have h: "map_of (nodes (model example_initial)) ''n'' = Some ?root"
    by code_simp
  have v: "position (transform (?root\<lparr>transform := merge_transform (transform ?root) ?p\<rparr>))
             = \<lparr>x = 5, y = 0, z = 0\<rparr>"
     "rotation (transform (?root\<lparr>transform := merge_transform (transform ?root) ?p\<rparr>))
             = \<lparr>x = 0, y = 0, z = 0\<rparr>"
     "scale (transform (?root\<lparr>transform := merge_transform (transform ?root) ?p\<rparr>))
             = \<lparr>x = 1, y = 1, z = 1\<rparr>"
     "children (?root\<lparr>transform := merge_transform (transform ?root) ?p\<rparr>) = Some []"
    by code_simp+
  from update_transform_frame [OF h, of tally_ids 1 ?p]
  obtain state' where st:
    "modelReducer tally_ids 1 example_initial (UPDATE_TRANSFORM ''n'' ?p) = Inr (state', 1)"
    "map_of (nodes (model state')) ''n''
       = Some (?root\<lparr>transform := merge_transform (transform ?root) ?p\<rparr>)"
    by (elim exE conjE)
  note h
  moreover have "\<exists>state' node'.
         modelReducer tally_ids 1 example_initial (UPDATE_TRANSFORM ''n'' ?p) = Inr (state', 1)
       \<and> map_of (nodes (model state')) ''n'' = Some node'
       \<and> position (transform node') = \<lparr>x = 5, y = 0, z = 0\<rparr>
       \<and> rotation (transform node') = \<lparr>x = 0, y = 0, z = 0\<rparr>
       \<and> scale (transform node') = \<lparr>x = 1, y = 1, z = 1\<rparr>
       \<and> children node' = Some []"
    apply (rule exI[of _ state'])
    apply (rule exI[of _ "?root\<lparr>transform := merge_transform (transform ?root) ?p\<rparr>"])
    apply (intro conjI st v)
    done
  ultimately show ?thesis by (rule conjI)
qed

section \<open>Reordering with an index out of range\<close>

text \<open>
  C9 (out-of-range reorder), as amended. For an assembly parent with children \<open>cs\<close>,
  \<^verbatim>\<open>REORDER_CHILDREN\<close> neither rejects nor clamps. When \<open>fromIndex\<close> is at or past the end
  of \<open>cs\<close> (or \<open>cs\<close> is empty) the removal yields no element and \<^verbatim>\<open>undefined\<close> is
  inserted at \<open>toIndex\<close>: the new list has one entry more, one of them \<^verbatim>\<open>undefined\<close>.
  A negative \<open>fromIndex\<close> is not such a case: \<^verbatim>\<open>splice\<close> counts it from the end, so for
  every \<open>fromIndex\<close> below the length of a non-empty \<open>cs\<close> a child is removed and put
  back, and the new list is a permutation of \<open>cs\<close>.
\<close>

theorem reorder_out_of_range:
  assumes "map_of (nodes (model state)) parentId = Some parent"
      and "type parent = assembly"
      and "children parent = Some cs"
  shows "\<exists>state'. modelReducer gen c state (REORDER_CHILDREN parentId fromIndex toIndex)
                    = Inr (state', c)
     \<and> map_of (nodes (model state')) parentId
         = Some (parent\<lparr>children := Some (reorder fromIndex toIndex cs)\<rparr>)
     \<and> (int (length cs) \<le> fromIndex \<or> cs = [] \<longrightarrow>
          reorder fromIndex toIndex cs = splice_insert toIndex Undefined cs
          \<and> Undefined \<in> set (reorder fromIndex toIndex cs)
          \<and> length (reorder fromIndex toIndex cs) = Suc (length cs))
     \<and> (fromIndex < int (length cs) \<and> cs \<noteq> [] \<longrightarrow>
          mset (reorder fromIndex toIndex cs) = mset cs)"
proof -
  let ?ns = "AList.update parentId (parent\<lparr>children := Some (reorder fromIndex toIndex cs)\<rparr>)
               (nodes (model state))"
  let ?s = "saveToHistory state (with_nodes state ?ns)"
  have r: "modelReducer gen c state (REORDER_CHILDREN parentId fromIndex toIndex) = Inr (?s, c)"
    using assms by (simp add: modelReducer_def reduce_REORDER_CHILDREN_def)
  have a: "map_of (nodes (model ?s)) parentId
             = Some (parent\<lparr>children := Some (reorder fromIndex toIndex cs)\<rparr>)"
    by (simp add: update_conv')
  have ins: "set (splice_insert i v xs) = insert v (set xs)"
            "length (splice_insert i v xs) = Suc (length xs)"
            "mset (splice_insert i v xs) = add_mset v (mset xs)" for i and v :: ChildRef and xs
  proof -
    have "mset (take k xs) + mset (drop k xs) = mset xs" for k
      by (metis append_take_drop_id mset_append)
    then show "mset (splice_insert i v xs) = add_mset v (mset xs)"
      by (simp add: splice_insert_def Let_def)
    then show "set (splice_insert i v xs) = insert v (set xs)"
      by (metis set_mset_add_mset_insert set_mset_mset)
    show "length (splice_insert i v xs) = Suc (length xs)"
      by (simp add: splice_insert_def Let_def)
  qed
  have past: "reorder fromIndex toIndex cs = splice_insert toIndex Undefined cs"
    if "int (length cs) \<le> fromIndex \<or> cs = []"
  proof -
    have "splice_start fromIndex (length cs) = length cs"
      using that by (auto simp: splice_start_def)
    then show ?thesis
      by (simp add: reorder_def splice_remove1_def Let_def)
  qed
  have inr: "mset (reorder fromIndex toIndex cs) = mset cs"
    if "fromIndex < int (length cs) \<and> cs \<noteq> []"
  proof -
    let ?k = "splice_start fromIndex (length cs)"
    have lt: "?k < length cs"
      using that by (cases cs) (auto simp: splice_start_def max_def)
    then have d: "drop ?k cs = cs ! ?k # drop (Suc ?k) cs"
      by (simp add: Cons_nth_drop_Suc)
    have "reorder fromIndex toIndex cs
            = splice_insert toIndex (cs ! ?k) (take ?k cs @ drop (Suc ?k) cs)"
      using d by (simp add: reorder_def splice_remove1_def Let_def)
    then have "mset (reorder fromIndex toIndex cs)
                 = add_mset (cs ! ?k) (mset (take ?k cs) + mset (drop (Suc ?k) cs))"
      by (simp add: ins)
    also have "\<dots> = mset (take ?k cs @ drop ?k cs)"
      by (simp add: d)
    finally show ?thesis by simp
  qed
  show ?thesis
    apply (rule exI[of _ ?s])
    apply (intro conjI impI r a)
    using past inr by (simp_all add: ins)
qed


text \<open>
  Witness: in the state whose root has the single child \<open>''ni''\<close>, \<open>fromIndex = 5\<close> puts
  \<^verbatim>\<open>undefined\<close> in front of it, and \<open>fromIndex = 0\<close> leaves a permutation.
\<close>

theorem reorder_out_of_range_witness:
  "map_of (nodes (model example_one_child)) ''n''
     = Some (example_root\<lparr>children := Some [Id ''ni'']\<rparr>)
   \<and> type (example_root\<lparr>children := Some [Id ''ni'']\<rparr>) = assembly
   \<and> children (example_root\<lparr>children := Some [Id ''ni'']\<rparr>) = Some [Id ''ni'']
   \<and> int (length [Id ''ni'']) \<le> 5
   \<and> (\<exists>state'. modelReducer tally_ids 2 example_one_child (REORDER_CHILDREN ''n'' 5 0)
                   = Inr (state', 2)
        \<and> map_of (nodes (model state')) ''n''
            = Some (example_root\<lparr>children := Some [Undefined, Id ''ni'']\<rparr>))
   \<and> (0::int) < int (length [Id ''ni''])
   \<and> mset (reorder 0 0 [Id ''ni'']) = mset [Id ''ni'']"
proof -
  let ?parent = "example_root\<lparr>children := Some [Id ''ni'']\<rparr>"
  have h1: "map_of (nodes (model example_one_child)) ''n'' = Some ?parent"
    by code_simp
  have h2: "type ?parent = assembly" by code_simp
  have h3: "children ?parent = Some [Id ''ni'']" by simp
  have e: "reorder 5 0 [Id ''ni''] = [Undefined, Id ''ni'']" by code_simp
  from reorder_out_of_range [OF h1 h2 h3, of tally_ids 2 5 0]
  obtain state' where
    "modelReducer tally_ids 2 example_one_child (REORDER_CHILDREN ''n'' 5 0) = Inr (state', 2)"
    "map_of (nodes (model state')) ''n''
       = Some (?parent\<lparr>children := Some (reorder 5 0 [Id ''ni''])\<rparr>)"
    by (elim exE conjE)
  then have "\<exists>state'. modelReducer tally_ids 2 example_one_child (REORDER_CHILDREN ''n'' 5 0)
                   = Inr (state', 2)
        \<and> map_of (nodes (model state')) ''n''
            = Some (example_root\<lparr>children := Some [Undefined, Id ''ni'']\<rparr>)"
    by (intro exI[of _ state']) (simp add: e)
  moreover from reorder_out_of_range [OF h1 h2 h3, of tally_ids 2 0 0]
  have "mset (reorder 0 0 [Id ''ni'']) = mset [Id ''ni'']"
    by (elim exE conjE) simp
  ultimately show ?thesis
    using h1 h2 by simp
qed

text \<open>
  Counterexample to C9 as stated: \<open>fromIndex = -1\<close> is outside the bounds of the one-element
  children list of the root, and after the action the list is \<open>[''ni'']\<close>: no
  \<^verbatim>\<open>undefined\<close> entry, and \<open>''ni''\<close> is a node of the model.
\<close>

theorem reorder_negative_index_moves_last_child:
  "\<not> (0 \<le> (- 1 :: int) \<and> (- 1 :: int) < int (length [Id ''ni'']))
   \<and> map_option children (map_of (nodes (model example_one_child)) ''n'')
       = Some (Some [Id ''ni''])
   \<and> map_sum id (\<lambda>r. map_option children (map_of (nodes (model (fst r))) ''n''))
        (modelReducer tally_ids 2 example_one_child (REORDER_CHILDREN ''n'' (- 1) 0))
       = Inr (Some (Some [Id ''ni'']))
   \<and> map_sum id (\<lambda>r. map_of (nodes (model (fst r))) ''ni'' \<noteq> None)
        (modelReducer tally_ids 2 example_one_child (REORDER_CHILDREN ''n'' (- 1) 0))
       = Inr True"
  by code_simp

section \<open>History: snapshots, undo and redo\<close>

text \<open>
  The shape of a history the reducer maintains: between 1 and 50 entries, the index
  inside the list.
\<close>

definition history_ok :: "ModelState \<Rightarrow> bool" where
  "history_ok s =
     (1 \<le> length (history s) \<and> length (history s) \<le> 50
      \<and> 0 \<le> historyIndex s \<and> historyIndex s < int (length (history s)))"

text \<open>The index is at the last entry: nothing to redo.\<close>

definition at_end :: "ModelState \<Rightarrow> bool" where
  "at_end s = (history_ok s \<and> historyIndex s = int (length (history s)) - 1)"

text \<open>
  The states the application can be in: the initial state, and every state the reducer
  returns for an action dispatched in a reachable state. The number paired with a state is
  the count of identifiers drawn so far.
\<close>

inductive reachable :: "IdGen \<Rightarrow> ModelState \<Rightarrow> nat \<Rightarrow> bool" for gen :: IdGen where
  init: "createInitialState gen c0 = (s, c) \<Longrightarrow> reachable gen s c"
| step: "reachable gen s c \<Longrightarrow> modelReducer gen c s a = Inr (s', c') \<Longrightarrow> reachable gen s' c'"

text \<open>The states after each action of a sequence, up to the first error.\<close>

fun states_after :: "IdGen \<Rightarrow> nat \<Rightarrow> ModelState \<Rightarrow> ModelAction list \<Rightarrow> ModelState list" where
  "states_after gen c s [] = []"
| "states_after gen c s (a # as) =
     (case modelReducer gen c s a of
        Inl e \<Rightarrow> []
      | Inr (s', c') \<Rightarrow> s' # states_after gen c' s' as)"

text \<open>The last \<open>k\<close> elements of a list (the whole list when it is shorter).\<close>

definition lastn :: "nat \<Rightarrow> 'a list \<Rightarrow> 'a list" where
  "lastn k xs = drop (length xs - k) xs"

lemma length_slice0: "length (slice0 e xs) \<le> length xs"
  by (simp add: slice0_def)

lemma length_lastn [simp]: "length (lastn k xs) = min k (length xs)"
  by (simp add: lastn_def)

lemma history_saveToHistory:
  assumes "length (history s) \<le> 50"
  shows "history (saveToHistory s ns)
     = lastn 50 (slice0 (historyIndex s + 1) (history s) @ [snapshot ns])"
proof -
  let ?h = "slice0 (historyIndex s + 1) (history s)"
  have l: "length ?h \<le> 50" using assms length_slice0 [of "historyIndex s + 1" "history s"] by simp
  show ?thesis
  proof (cases "length ?h = 50")
    case True
    then have "?h \<noteq> []" by auto
    with True have "lastn 50 (?h @ [snapshot ns]) = tl (?h @ [snapshot ns])"
      by (simp add: lastn_def drop_Suc)
    with True show ?thesis by (simp add: saveToHistory_def Let_def)
  next
    case False
    with l have "length ?h < 50" by simp
    then show ?thesis by (simp add: saveToHistory_def Let_def lastn_def)
  qed
qed

lemma historyIndex_saveToHistory:
  assumes "length (history s) \<le> 50"
  shows "historyIndex (saveToHistory s ns) = int (length (history (saveToHistory s ns))) - 1"
proof -
  have "length (slice0 (historyIndex s + 1) (history s)) \<le> 50"
    using assms length_slice0 [of "historyIndex s + 1" "history s"] by simp
  then show ?thesis by (auto simp: saveToHistory_def Let_def)
qed

lemma at_end_saveToHistory: "length (history s) \<le> 50 \<Longrightarrow> at_end (saveToHistory s ns)"
  by (simp add: at_end_def history_ok_def historyIndex_saveToHistory history_saveToHistory)

lemma slice0_full: "int (length xs) \<le> e \<Longrightarrow> slice0 e xs = xs"
  by (simp add: slice0_def)

lemma save_step:
  assumes "modelReducer gen c s a = Inr (s', c')" and "shouldSaveToHistory a"
  shows "\<exists>ns. s' = saveToHistory s ns"
  using assms by (cases a) (auto simp: modelReducer_def split: sum.splits)

lemma snapshot_saveToHistory [simp]: "snapshot (saveToHistory s ns) = snapshot ns"
  by (simp add: snapshot_def)

lemma reducer_history_ok:
  assumes "modelReducer gen c s a = Inr (s', c')" and "history_ok s"
  shows "history_ok s'"
proof (cases "shouldSaveToHistory a")
  case True
  with assms(1) save_step obtain ns where s': "s' = saveToHistory s ns" by blast
  have "length (history s) \<le> 50" using assms(2) by (simp add: history_ok_def)
  then have "at_end (saveToHistory s ns)" by (rule at_end_saveToHistory)
  then show ?thesis using s' by (simp add: at_end_def)
next
  case False
  then show ?thesis
    using assms
    by (cases a)
       (auto simp: modelReducer_def reduce_UNDO_def reduce_REDO_def reduce_SELECT_NODE_def
          history_ok_def Suc_le_eq split: if_splits option.splits)
qed

lemma initial_at_end: "createInitialState gen c0 = (s, c) \<Longrightarrow> at_end s"
  by (auto simp: createInitialState_def generateId_def Let_def at_end_def history_ok_def)

lemma reachable_history_ok: "reachable gen s c \<Longrightarrow> history_ok s"
  by (induction rule: reachable.induct)
     (auto intro: reducer_history_ok dest: initial_at_end simp: at_end_def)


lemma lastn_lastn_append: "lastn k (lastn k xs @ ys) = lastn k (xs @ ys)"
  by (cases "k \<le> length xs") (auto simp: lastn_def add.commute)

lemma dispatch_all_append:
  "dispatch_all gen c s (as @ bs) =
     (case dispatch_all gen c s as of Inl e \<Rightarrow> Inl e | Inr (s', c') \<Rightarrow> dispatch_all gen c' s' bs)"
  by (induction as arbitrary: c s) (auto split: sum.splits)

lemma history_after_actions:
  assumes "at_end s" and "list_all shouldSaveToHistory as"
      and "dispatch_all gen c s as = Inr (s', c')"
  shows "history s' = lastn 50 (history s @ map snapshot (states_after gen c s as))
         \<and> at_end s'
         \<and> length (states_after gen c s as) = length as
         \<and> last (s # states_after gen c s as) = s'"
  using assms
proof (induction as arbitrary: s c)
  case Nil
  then show ?case by (simp add: lastn_def at_end_def history_ok_def Suc_le_eq)
next
  case (Cons a as)
  from Cons.prems(3) obtain s1 c1 where
    r: "modelReducer gen c s a = Inr (s1, c1)" and d: "dispatch_all gen c1 s1 as = Inr (s', c')"
    by (auto split: sum.splits)
  from Cons.prems(2) have sa: "shouldSaveToHistory a" and sas: "list_all shouldSaveToHistory as"
    by simp_all
  from save_step [OF r sa] obtain ns where s1: "s1 = saveToHistory s ns" by blast
  have le: "length (history s) \<le> 50" using Cons.prems(1) by (simp add: at_end_def history_ok_def)
  have e1: "at_end s1" unfolding s1 using le by (rule at_end_saveToHistory)
  have "slice0 (historyIndex s + 1) (history s) = history s"
    using Cons.prems(1) by (intro slice0_full) (simp add: at_end_def)
  then have h1: "history s1 = lastn 50 (history s @ [snapshot s1])"
    unfolding s1 using history_saveToHistory [OF le, of ns] by simp
  from Cons.IH [OF e1 sas d] have
    ih: "history s' = lastn 50 (history s1 @ map snapshot (states_after gen c1 s1 as))"
        "at_end s'" "length (states_after gen c1 s1 as) = length as"
        "last (s1 # states_after gen c1 s1 as) = s'"
    by simp_all
  have "history s' = lastn 50 (history s @ map snapshot (s1 # states_after gen c1 s1 as))"
    using ih(1) unfolding h1 by (simp add: lastn_lastn_append)
  then show ?case using ih(2,3,4) r by simp
qed

lemma undo_at_start: "historyIndex s \<le> 0 \<Longrightarrow> modelReducer gen c s UNDO = Inr (s, c)"
  by (simp add: modelReducer_def reduce_UNDO_def)

lemma redo_at_end:
  "int (length (history s)) - 1 \<le> historyIndex s \<Longrightarrow> modelReducer gen c s REDO = Inr (s, c)"
  by (simp add: modelReducer_def reduce_REDO_def)

text \<open>The state that shows entry \<open>i\<close> of the history of \<open>s\<close>.\<close>

definition at_index :: "ModelState \<Rightarrow> nat \<Rightarrow> ModelState" where
  "at_index s i =
     ModelState (model (history s ! i)) (selection (history s ! i)) (history s) (int i)"

lemma undo_steps:
  assumes "historyIndex s = int i" and "i < length (history s)" and "k \<le> i" and "0 < k"
  shows "dispatch_all gen c s (replicate k UNDO) = Inr (at_index s (i - k), c)"
  using assms
proof (induction k arbitrary: s i)
  case 0
  then show ?case by simp
next
  case (Suc k)
  obtain j where i: "i = Suc j" using Suc.prems(3) by (cases i) auto
  have r: "modelReducer gen c s UNDO = Inr (at_index s j, c)"
    using Suc.prems(1,2) i
    by (simp add: modelReducer_def reduce_UNDO_def index_def at_index_def)
  show ?case
  proof (cases "k = 0")
    case True
    then show ?thesis using r i by simp
  next
    case False
    have "dispatch_all gen c (at_index s j) (replicate k UNDO) = Inr (at_index (at_index s j) (j - k), c)"
      using Suc.prems i False by (intro Suc.IH) (auto simp: at_index_def)
    then show ?thesis using r i by (simp add: at_index_def)
  qed
qed



lemma json_copy_initial:
  assumes "createInitialState gen c0 = (s0, c1)"
  shows "history s0 = [snapshot s0]" and "model (snapshot s0) = model s0" and "historyIndex s0 = 0"
  using assms
  by (auto simp: createInitialState_def generateId_def Let_def snapshot_def json_copy_def
        json_node_def)



definition example_sixty_actions :: "ModelAction list" where
  "example_sixty_actions = replicate 60 (TOGGLE_VISIBILITY ''n'')"

definition example_after_sixty :: ModelState where
  "example_after_sixty =
     (case dispatch_all tally_ids 1 example_initial example_sixty_actions of
        Inr (state, c) \<Rightarrow> state
      | Inl e \<Rightarrow> example_initial)"




text \<open>
  C5 (history cap), as amended. In every reachable state the history has between 1 and 50
  entries and the index lies inside it. When the history kept up to the index already has
  50 entries (or more), the history step drops the oldest entry and sets the index to 49.
  After 60 history-significant actions from the initial state the history has 50 entries
  and the index is 49; the entries are the snapshots of the states after the 11th to the
  60th action, so 11 snapshots are gone, that of the initial state and those after the
  first ten actions; \<^verbatim>\<open>UNDO\<close> steps back 49 times, to the state after the 11th action, and
  there it returns the state unchanged.
\<close>

theorem history_cap:
  "(reachable gen s c \<longrightarrow>
      1 \<le> length (history s) \<and> length (history s) \<le> 50
      \<and> 0 \<le> historyIndex s \<and> historyIndex s < int (length (history s)))
   \<and> (50 \<le> length (slice0 (historyIndex s + 1) (history s)) \<longrightarrow>
        history (saveToHistory s ns)
          = tl (slice0 (historyIndex s + 1) (history s) @ [snapshot ns])
        \<and> historyIndex (saveToHistory s ns) = 49)
   \<and> (createInitialState gen c0 = (s0, c1) \<and> list_all shouldSaveToHistory as
        \<and> length as = 60 \<and> dispatch_all gen c1 s0 as = Inr (sN, cN) \<longrightarrow>
        length (history sN) = 50 \<and> historyIndex sN = 49
        \<and> history sN = map snapshot (drop 10 (states_after gen c1 s0 as))
        \<and> (\<forall>k. 0 < k \<and> k \<le> 49 \<longrightarrow>
              dispatch_all gen cN sN (replicate k UNDO) = Inr (at_index sN (49 - k), cN))
        \<and> modelReducer gen cN (at_index sN 0) UNDO = Inr (at_index sN 0, cN))"
proof (intro conjI impI)
  assume "reachable gen s c"
  then have "history_ok s" by (rule reachable_history_ok)
  then show "1 \<le> length (history s)" "length (history s) \<le> 50"
    "0 \<le> historyIndex s" "historyIndex s < int (length (history s))"
    by (simp_all add: history_ok_def)
next
  assume "50 \<le> length (slice0 (historyIndex s + 1) (history s))"
  then show "history (saveToHistory s ns)
          = tl (slice0 (historyIndex s + 1) (history s) @ [snapshot ns])"
    "historyIndex (saveToHistory s ns) = 49"
    by (simp_all add: saveToHistory_def Let_def)
next
  assume a: "createInitialState gen c0 = (s0, c1) \<and> list_all shouldSaveToHistory as
        \<and> length as = 60 \<and> dispatch_all gen c1 s0 as = Inr (sN, cN)"
  let ?ss = "states_after gen c1 s0 as"
  from a have init: "createInitialState gen c0 = (s0, c1)" by simp
  from history_after_actions [OF initial_at_end [OF init], of as gen c1 sN cN] a
  have h: "history sN = lastn 50 (history s0 @ map snapshot ?ss)"
    and e: "at_end sN" and l: "length ?ss = 60"
    by simp_all
  have "lastn 50 (snapshot s0 # map snapshot ?ss) = drop 10 (map snapshot ?ss)"
    using l by (simp add: lastn_def)
  then show hN: "history sN = map snapshot (drop 10 ?ss)"
    using h json_copy_initial(1) [OF init] by (simp add: drop_map)
  then show lh: "length (history sN) = 50" using l by simp
  then show iN: "historyIndex sN = 49" using e by (simp add: at_end_def)
  show "\<forall>k. 0 < k \<and> k \<le> 49 \<longrightarrow>
          dispatch_all gen cN sN (replicate k UNDO) = Inr (at_index sN (49 - k), cN)"
    using undo_steps [where s=sN and i=49 and gen=gen and c=cN] iN lh by simp
  show "modelReducer gen cN (at_index sN 0) UNDO = Inr (at_index sN 0, cN)"
    by (rule undo_at_start) (simp add: at_index_def)
qed

text \<open>
  Witness: a reachable state, a state whose history is full, and the sixty toggles.
\<close>

theorem history_cap_witness:
  "reachable tally_ids example_one_child 2
   \<and> 1 \<le> length (history example_one_child) \<and> length (history example_one_child) \<le> 50
   \<and> 50 \<le> length (slice0 (historyIndex example_after_sixty + 1) (history example_after_sixty))
   \<and> historyIndex (saveToHistory example_after_sixty example_initial) = 49
   \<and> createInitialState tally_ids 0 = (example_initial, 1)
   \<and> list_all shouldSaveToHistory example_sixty_actions
   \<and> length example_sixty_actions = 60
   \<and> dispatch_all tally_ids 1 example_initial example_sixty_actions = Inr (example_after_sixty, 1)
   \<and> length (history example_after_sixty) = 50 \<and> historyIndex example_after_sixty = 49
   \<and> (0::nat) < 49 \<and> (49::nat) \<le> 49
   \<and> dispatch_all tally_ids 1 example_after_sixty (replicate 49 UNDO)
       = Inr (at_index example_after_sixty (49 - 49), 1)
   \<and> modelReducer tally_ids 1 (at_index example_after_sixty 0) UNDO
       = Inr (at_index example_after_sixty 0, 1)"
proof -
  have i: "createInitialState tally_ids 0 = (example_initial, 1)" by code_simp
  have a: "modelReducer tally_ids 1 example_initial (ADD_ASSEMBLY ''n'' ''Assembly 1'')
             = Inr (example_one_child, 2)"
    by code_simp
  have r: "reachable tally_ids example_one_child 2"
    by (rule reachable.step [OF reachable.init [OF i] a])
  have f: "50 \<le> length (slice0 (historyIndex example_after_sixty + 1) (history example_after_sixty))"
    by code_simp
  have s: "list_all shouldSaveToHistory example_sixty_actions" "length example_sixty_actions = 60"
    by (simp_all add: example_sixty_actions_def list_all_length)
  have d: "dispatch_all tally_ids 1 example_initial example_sixty_actions
             = Inr (example_after_sixty, 1)"
    by code_simp
  note t = history_cap [of tally_ids example_one_child 2]
  note u = history_cap [of tally_ids example_after_sixty _ example_initial 0 example_initial 1
                           example_sixty_actions example_after_sixty 1]
  show ?thesis
    using r f i s d t u by simp
qed

text \<open>
  Counterexample to C5 as stated: after the sixty actions, 49 \<^verbatim>\<open>UNDO\<close>s bring the index
  to 0, and the 50th changes nothing.
\<close>

theorem undo_stops_after_49_steps:
  "list_all shouldSaveToHistory example_sixty_actions
   \<and> length example_sixty_actions = 60
   \<and> map_sum id (\<lambda>r. historyIndex (fst r))
        (dispatch_all tally_ids 1 example_initial (example_sixty_actions @ replicate 48 UNDO))
       = Inr 1
   \<and> map_sum id (\<lambda>r. historyIndex (fst r))
        (dispatch_all tally_ids 1 example_initial (example_sixty_actions @ replicate 49 UNDO))
       = Inr 0
   \<and> dispatch_all tally_ids 1 example_initial (example_sixty_actions @ replicate 50 UNDO)
       = dispatch_all tally_ids 1 example_initial (example_sixty_actions @ replicate 49 UNDO)"
  by code_simp

section \<open>Deleting a node\<close>

text \<open>The state \<^verbatim>\<open>DELETE_NODE\<close> builds when the node has a parent.\<close>

definition deleted_state :: "ModelState \<Rightarrow> NodeId \<Rightarrow> NodeId \<Rightarrow> ModelNode \<Rightarrow> ModelState" where
  "deleted_state state nodeId parent parentNode =
     ModelState
       ((model state)\<lparr>nodes :=
          AList.update parent
            (parentNode\<lparr>children := Some (filter (\<lambda>i. i \<noteq> Id nodeId) (children_of parentNode))\<rparr>)
            (fold AList.delete (nodeId # getDescendants nodeId (model state)) (nodes (model state)))\<rparr>)
       (if selectedNodeId (selection state) = Some nodeId
        then (selection state)\<lparr>selectedNodeId := None\<rparr> else selection state)
       (history state) (historyIndex state)"

lemma delete_node_with_parent:
  assumes "distinct (map fst (nodes (model state)))"
      and "map_of (nodes (model state)) nodeId = Some node"
      and "findParent nodeId (model state) = Some parent" and "parent \<noteq> []"
  shows "\<exists>parentNode. map_of (nodes (model state)) parent = Some parentNode
           \<and> Id nodeId \<in> set (children_of parentNode)
           \<and> modelReducer gen c state (DELETE_NODE nodeId)
               = Inr (saveToHistory state (deleted_state state nodeId parent parentNode), c)"
proof -
  from findParent_SomeD [OF assms(3,1)] obtain parentNode where
    p: "map_of (nodes (model state)) parent = Some parentNode"
       "Id nodeId \<in> set (children_of parentNode)"
    by blast
  from children_of_nonempty [OF p(2)] have
    t: "type parentNode = assembly" "children parentNode = Some (children_of parentNode)"
    by simp_all
  have "reduce_DELETE_NODE c state nodeId
          = Inr (deleted_state state nodeId parent parentNode, c)"
    using assms(2,3,4) p(1) t
    by (simp add: reduce_DELETE_NODE_def truthy_def deleted_state_def Let_def)
  then show ?thesis using p by (auto simp: modelReducer_def)
qed

lemma nodes_deleted_state:
  "map_of (nodes (model (deleted_state state nodeId parent parentNode))) k =
     (if k = parent
      then Some (parentNode\<lparr>children := Some (filter (\<lambda>i. i \<noteq> Id nodeId) (children_of parentNode))\<rparr>)
      else if k \<in> set (nodeId # getDescendants nodeId (model state)) then None
      else map_of (nodes (model state)) k)"
  by (simp add: deleted_state_def update_conv' map_of_fold_delete delete_conv')

lemma length_deleted_state:
  assumes "distinct (map fst (nodes (model state)))"
      and "map_of (nodes (model state)) nodeId = Some node"
      and "map_of (nodes (model state)) parent = Some parentNode"
      and "parent \<notin> set (nodeId # getDescendants nodeId (model state))"
      and "set (getDescendants nodeId (model state)) \<subseteq> fst ` set (nodes (model state))"
      and "nodeId \<notin> set (getDescendants nodeId (model state))"
  shows "length (nodes (model (deleted_state state nodeId parent parentNode)))
           + card (set (getDescendants nodeId (model state))) + 1
         = length (nodes (model state))"
proof -
  let ?ns = "nodes (model state)"
  let ?D = "set (nodeId # getDescendants nodeId (model state))"
  let ?ns' = "fold AList.delete (nodeId # getDescendants nodeId (model state)) ?ns"
  have "map_of ?ns' parent = Some parentNode"
    using assms(3,4) by (simp only: map_of_fold_delete if_False)
  then have "parent \<in> fst ` set ?ns'"
    by (metis domI dom_map_of_conv_image_fst)
  then have "length (AList.update parent v ?ns') = length ?ns'" for v
    by (metis length_map update_keys list.set_map)
  then have l: "length (nodes (model (deleted_state state nodeId parent parentNode))) = length ?ns'"
    by (simp add: deleted_state_def)
  have "nodeId \<in> fst ` set ?ns"
    using assms(2) by (metis domI dom_map_of_conv_image_fst)
  then have sub: "?D \<subseteq> set (map fst ?ns)" using assms(5) by auto
  have "length (map fst ?ns') + card ?D = length (map fst ?ns)"
    unfolding keys_fold_delete using assms(1) sub by (intro length_filter_notin) auto
  moreover have "card ?D = card (set (getDescendants nodeId (model state))) + 1"
    using assms(6) by simp
  ultimately show ?thesis using l by simp
qed


text \<open>
  C10 (dangling selection after ancestor delete). Under the conditions of the delete (keys
  distinct, the node in the table, a parent found that is neither the node nor among its
  descendants), the selection after \<^verbatim>\<open>DELETE_NODE\<close> is cleared exactly when the selected
  node is the deleted one; a selected strict descendant stays selected although it has no
  entry in the table any more.
\<close>

theorem delete_leaves_selection_dangling:
  assumes "distinct (map fst (nodes (model state)))"
      and "map_of (nodes (model state)) nodeId = Some node"
      and "findParent nodeId (model state) = Some parent" and "parent \<noteq> []"
      and "parent \<notin> set (nodeId # getDescendants nodeId (model state))"
      and "selectedNodeId (selection state) = Some sel"
  shows "\<exists>state'. modelReducer gen c state (DELETE_NODE nodeId) = Inr (state', c)
     \<and> selectedNodeId (selection state') = (if sel = nodeId then None else Some sel)
     \<and> (sel \<in> set (getDescendants nodeId (model state)) \<and> sel \<noteq> nodeId \<longrightarrow>
          selectedNodeId (selection state') = Some sel
          \<and> map_of (nodes (model state')) sel = None)"
proof -
  from delete_node_with_parent [OF assms(1,2,3,4), of gen c] obtain parentNode where
    r: "modelReducer gen c state (DELETE_NODE nodeId)
               = Inr (saveToHistory state (deleted_state state nodeId parent parentNode), c)"
    by blast
  let ?d = "deleted_state state nodeId parent parentNode"
  have s: "selectedNodeId (selection ?d) = (if sel = nodeId then None else Some sel)"
    using assms(6) by (simp add: deleted_state_def)
  have "map_of (nodes (model ?d)) sel = None"
    if "sel \<in> set (getDescendants nodeId (model state))"
    using that assms(5) by (auto simp: nodes_deleted_state)
  with s r show ?thesis
    by (intro exI[of _ "saveToHistory state ?d"]) simp
qed

text \<open>
  Witness: in the nested example the primitive \<open>''nii''\<close> is selected; deleting its parent
  assembly \<open>''ni''\<close> leaves it selected, and it is gone from the table.
\<close>

theorem delete_leaves_selection_dangling_witness:
  "distinct (map fst (nodes (model example_nested)))
   \<and> map_of (nodes (model example_nested)) ''ni'' = Some example_assembly
   \<and> findParent ''ni'' (model example_nested) = Some ''n'' \<and> ''n'' \<noteq> []
   \<and> ''n'' \<notin> set (''ni'' # getDescendants ''ni'' (model example_nested))
   \<and> selectedNodeId (selection example_nested) = Some ''nii''
   \<and> ''nii'' \<in> set (getDescendants ''ni'' (model example_nested)) \<and> ''nii'' \<noteq> ''ni''
   \<and> (\<exists>state'. modelReducer tally_ids 3 example_nested (DELETE_NODE ''ni'') = Inr (state', 3)
        \<and> selectedNodeId (selection state') = Some ''nii''
        \<and> map_of (nodes (model state')) ''nii'' = None)"
proof -
  have h0: "distinct (map fst (nodes (model example_nested)))" by code_simp
  have h1: "map_of (nodes (model example_nested)) ''ni'' = Some example_assembly" by code_simp
  have h2: "findParent ''ni'' (model example_nested) = Some ''n''" by code_simp
  have h3: "''n'' \<noteq> []" by simp
  have h4: "''n'' \<notin> set (''ni'' # getDescendants ''ni'' (model example_nested))" by code_simp
  have h5: "selectedNodeId (selection example_nested) = Some ''nii''" by code_simp
  have h6: "''nii'' \<in> set (getDescendants ''ni'' (model example_nested)) \<and> ''nii'' \<noteq> ''ni''"
    by code_simp
  from delete_leaves_selection_dangling [OF h0 h1 h2 h3 h4 h5, of tally_ids 3]
  obtain state' where
    "modelReducer tally_ids 3 example_nested (DELETE_NODE ''ni'') = Inr (state', 3)"
    "''nii'' \<in> set (getDescendants ''ni'' (model example_nested)) \<and> ''nii'' \<noteq> ''ni'' \<longrightarrow>
          selectedNodeId (selection state') = Some ''nii''
          \<and> map_of (nodes (model state')) ''nii'' = None"
    by (elim exE conjE)
  with h6 have "\<exists>state'. modelReducer tally_ids 3 example_nested (DELETE_NODE ''ni'') = Inr (state', 3)
        \<and> selectedNodeId (selection state') = Some ''nii''
        \<and> map_of (nodes (model state')) ''nii'' = None"
    by (intro exI[of _ state']) simp
  with h0 h1 h2 h3 h4 h5 h6 show ?thesis by (intro conjI) simp_all
qed

section \<open>Duplicating a subtree\<close>

text \<open>
  A subtree of the model as a value: the key of its root, the node stored under the key,
  and the subtrees of the children, in the order of the children list.
\<close>

datatype NodeTree = NodeTree (root_id: NodeId) (root_node: ModelNode) (subtrees: "NodeTree list")

text \<open>The identifiers of a tree, root first, then the subtrees from left to right.\<close>

fun tree_ids :: "NodeTree \<Rightarrow> NodeId list" where
  "tree_ids (NodeTree k n ts) = k # concat (map tree_ids ts)"

fun tree_size :: "NodeTree \<Rightarrow> nat" where
  "tree_size (NodeTree k n ts) = Suc (sum_list (map tree_size ts))"

fun tree_height :: "NodeTree \<Rightarrow> nat" where
  "tree_height (NodeTree k n ts) = Suc (fold max (map tree_height ts) 0)"

text \<open>
  The table holds the tree: every node of the tree is stored under its key, a primitive
  has no subtrees, and the children list of an assembly names the roots of its subtrees,
  in order.
\<close>

fun represents :: "Nodes \<Rightarrow> NodeTree \<Rightarrow> bool" where
  "represents ns (NodeTree k n ts) =
     (map_of ns k = Some n
      \<and> (if type n = primitive then ts = []
         else children n = Some (map (\<lambda>t. Id (root_id t)) ts) \<and> list_all (represents ns) ts))"

text \<open>
  \<open>is_copy t t'\<close>: \<open>t'\<close> has the shape of \<open>t\<close>, subtree by subtree in the same order, and
  each of its nodes is the node of \<open>t\<close> at the same place with \<open>'' (copy)''\<close> appended
  to the name; identifiers (the keys, the \<open>id\<close> fields and the children lists that
  name them) are not compared.
\<close>

fun shape :: "NodeTree \<Rightarrow> NodeTree" where
  "shape (NodeTree k n ts) = NodeTree [] (n\<lparr>id_node := [], children := None\<rparr>) (map shape ts)"

fun renamed :: "NodeTree \<Rightarrow> NodeTree" where
  "renamed (NodeTree k n ts) = NodeTree k (n\<lparr>name := name n @ '' (copy)''\<rparr>) (map renamed ts)"

definition is_copy :: "NodeTree \<Rightarrow> NodeTree \<Rightarrow> bool" where
  "is_copy t t' = (shape t' = shape (renamed t))"

lemma length_tree_ids: "length (tree_ids t) = tree_size t"
  by (induction t) (simp add: length_concat comp_def cong: map_cong)

lemma fold_max_ge_init: "(b::nat) \<le> fold max xs b"
  by (induction xs arbitrary: b) (auto intro: order_trans [OF max.cobounded2])

lemma fold_max_ge: "(a::nat) \<in> set xs \<Longrightarrow> a \<le> fold max xs b"
proof (induction xs arbitrary: b)
  case Nil
  then show ?case by simp
next
  case (Cons h xs)
  show ?case
  proof (cases "a = h")
    case True
    have "a \<le> max a b" by simp
    also have "\<dots> \<le> fold max xs (max a b)" by (rule fold_max_ge_init)
    finally show ?thesis using True by simp
  next
    case False
    then show ?thesis using Cons by auto
  qed
qed

lemma fold_max_le_sum: "fold max xs (b::nat) \<le> sum_list xs + b"
proof (induction xs arbitrary: b)
  case Nil
  then show ?case by simp
next
  case (Cons h xs)
  have "fold max xs (max h b) \<le> sum_list xs + max h b" by (rule Cons.IH)
  also have "\<dots> \<le> sum_list xs + (h + b)" by simp
  finally show ?case by (simp add: ac_simps)
qed

lemma tree_height_le_size: "tree_height t \<le> tree_size t"
proof (induction t)
  case (NodeTree k n ts)
  have "fold max (map tree_height ts) 0 \<le> sum_list (map tree_height ts)"
    using fold_max_le_sum [of "map tree_height ts" 0] by simp
  also have "\<dots> \<le> sum_list (map tree_size ts)"
    using NodeTree.IH by (intro sum_list_mono) auto
  finally show ?case by simp
qed

lemma subtree_height:
  "t \<in> set ts \<Longrightarrow> tree_height t < tree_height (NodeTree k n ts)"
  using fold_max_ge [of "tree_height t" "map tree_height ts" 0] by (auto simp: less_Suc_eq_le)

lemma represents_cong:
  "(\<And>j. j \<in> set (tree_ids t) \<Longrightarrow> map_of ns1 j = map_of ns2 j)
   \<Longrightarrow> represents ns1 t = represents ns2 t"
proof (induction t)
  case (NodeTree k n ts)
  have "list_all (represents ns1) ts = list_all (represents ns2) ts"
  proof (rule list_all_cong [OF refl])
    fix t assume t: "t \<in> set ts"
    show "represents ns1 t = represents ns2 t"
      using t NodeTree.prems by (intro NodeTree.IH) auto
  qed
  moreover have "map_of ns1 k = map_of ns2 k" using NodeTree.prems by simp
  ultimately show ?case by simp
qed

lemma represents_keys:
  "represents ns t \<Longrightarrow> set (tree_ids t) \<subseteq> fst ` set ns"
proof (induction t)
  case (NodeTree k n ts)
  then have "k \<in> fst ` set ns"
    by (metis domI dom_map_of_conv_image_fst represents.simps)
  moreover have "set (tree_ids t) \<subseteq> fst ` set ns" if "t \<in> set ts" for t
    using that NodeTree by (cases "type n = primitive") (auto simp: list_all_iff)
  ultimately show ?case by auto
qed

text \<open>The last step of \<^verbatim>\<open>duplicateNode\<close>, which adds the clone to \<^verbatim>\<open>nodes[newParentId]\<close>.\<close>

definition add_to_parent ::
  "NodeId \<Rightarrow> NodeId \<Rightarrow> Nodes \<times> nat \<Rightarrow> Error + ChildRef \<times> Nodes \<times> nat" where
  "add_to_parent newParentId newId st =
     (case st of (ns3, c3) \<Rightarrow>
       (case map_of ns3 newParentId of
          None \<Rightarrow> Inr (Id newId, ns3, c3)
        | Some newParentNode \<Rightarrow>
            if type newParentNode = assembly then
              (case children newParentNode of
                 None \<Rightarrow> Inl TypeError
               | Some pcs \<Rightarrow>
                   Inr (Id newId,
                        AList.update newParentId
                          (newParentNode\<lparr>children := Some (pcs @ [Id newId])\<rparr>) ns3, c3))
            else Inr (Id newId, ns3, c3)))"

lemma duplicateNode_primitive:
  assumes "map_of ns (key_of src) = Some n" and "type n = primitive"
  shows "duplicateNode gen (Suc d) src P (ns, c) =
           add_to_parent P (gen c)
             (AList.update (gen c) (n\<lparr>id_node := gen c, name := name n @ '' (copy)''\<rparr>) ns, Suc c)"
  using assms by (simp add: add_to_parent_def generateId_def)

lemma duplicateNode_assembly:
  assumes "map_of ns (key_of src) = Some n" and "type n \<noteq> primitive"
      and "children n = Some cs"
      and "duplicateChildren gen d cs (gen c) []
             (AList.update (gen c) (n\<lparr>id_node := gen c, name := name n @ '' (copy)'',
                                       children := Some []\<rparr>) ns, Suc c)
           = Inr (newChildren, ns2, c2)"
      and "map_of ns2 (gen c) = Some dA" and "type dA = assembly"
  shows "duplicateNode gen (Suc d) src P (ns, c) =
           add_to_parent P (gen c)
             (AList.update (gen c) (dA\<lparr>children := Some newChildren\<rparr>) ns2, c2)"
  using assms by (simp add: add_to_parent_def generateId_def)


declare duplicateNode.simps [simp del]

lemma keys_update_new: "k \<notin> fst ` set al \<Longrightarrow> map fst (AList.update k v al) = map fst al @ [k]"
  by (simp add: update_keys)

lemma keys_update_old: "k \<in> fst ` set al \<Longrightarrow> map fst (AList.update k v al) = map fst al"
  by (simp add: update_keys)

lemma key_of_map_of: "map_of al k = Some v \<Longrightarrow> k \<in> fst ` set al"
  by (metis domI dom_map_of_conv_image_fst)

lemma add_to_parent_assembly:
  assumes "map_of ns3 P = Some p" and "type p = assembly" and "children p = Some pcs"
  shows "add_to_parent P k (ns3, c3)
           = Inr (Id k, AList.update P (p\<lparr>children := Some (pcs @ [Id k])\<rparr>) ns3, c3)"
  using assms by (simp add: add_to_parent_def)

lemma upt_split: "[c..<c + a + b] = [c..<c + a] @ [c + a..<c + a + b]"
  by (metis le_add1 upt_add_eq_append)

lemma gen_fresh_later:
  assumes "inj gen" and "\<forall>i\<ge>c. gen i \<notin> fst ` set ns"
      and "map fst ns' = map fst ns @ map gen [c..<c + s]"
  shows "\<forall>i\<ge>c + s. gen i \<notin> fst ` set ns'"
proof (intro allI impI)
  fix i assume i: "c + s \<le> i"
  have "fst ` set ns' = fst ` set ns \<union> gen ` {c..<c + s}"
    using assms(3) by (metis image_set set_append set_map set_upt)
  moreover have "gen i \<notin> fst ` set ns" using assms(2) i by simp
  moreover have "gen i \<notin> gen ` {c..<c + s}"
    using assms(1) i by (auto dest: injD)
  ultimately show "gen i \<notin> fst ` set ns'" by simp
qed


text \<open>
  What a duplication leaves of the table: the new keys \<open>gen c, \<dots>, gen (c + s - 1)\<close> are
  appended in this order, and every entry but these and the one of the parent \<open>P\<close> is as
  before.
\<close>

definition extended :: "IdGen \<Rightarrow> nat \<Rightarrow> nat \<Rightarrow> NodeId \<Rightarrow> Nodes \<Rightarrow> Nodes \<Rightarrow> bool" where
  "extended gen c s P ns ns' =
     (map fst ns' = map fst ns @ map gen [c..<c + s]
      \<and> (\<forall>j. j \<notin> gen ` {c..<c + s} \<longrightarrow> j \<noteq> P \<longrightarrow> map_of ns' j = map_of ns j))"

text \<open>The duplication of the tree \<open>t\<close> with recursion depth \<open>d\<close>, from any table.\<close>

definition clones :: "IdGen \<Rightarrow> nat \<Rightarrow> NodeTree \<Rightarrow> bool" where
  "clones gen d t =
     (\<forall>ns c P p pcs.
        represents ns t \<longrightarrow> (\<forall>i\<ge>c. gen i \<notin> fst ` set ns) \<longrightarrow> P \<notin> gen ` {c..}
        \<longrightarrow> map_of ns P = Some p \<longrightarrow> type p = assembly \<longrightarrow> children p = Some pcs
        \<longrightarrow> (\<exists>ns' t'.
              duplicateNode gen d (Id (root_id t)) P (ns, c)
                = Inr (Id (gen c), ns', c + tree_size t)
            \<and> extended gen c (tree_size t) P ns ns'
            \<and> map_of ns' P = Some (p\<lparr>children := Some (pcs @ [Id (gen c)])\<rparr>)
            \<and> represents ns' t' \<and> root_id t' = gen c
            \<and> shape t' = shape (renamed t)
            \<and> tree_ids t' = map gen [c..<c + tree_size t]))"

lemma clonesD:
  assumes "clones gen d t" and "represents ns t" and "\<forall>i\<ge>c. gen i \<notin> fst ` set ns"
      and "P \<notin> gen ` {c..}" and "map_of ns P = Some p" and "type p = assembly"
      and "children p = Some pcs"
  shows "\<exists>ns' t'.
      duplicateNode gen d (Id (root_id t)) P (ns, c) = Inr (Id (gen c), ns', c + tree_size t)
      \<and> extended gen c (tree_size t) P ns ns'
      \<and> map_of ns' P = Some (p\<lparr>children := Some (pcs @ [Id (gen c)])\<rparr>)
      \<and> represents ns' t' \<and> root_id t' = gen c \<and> shape t' = shape (renamed t)
      \<and> tree_ids t' = map gen [c..<c + tree_size t]"
proof -
  from assms(1) have "represents ns t \<longrightarrow> (\<forall>i\<ge>c. gen i \<notin> fst ` set ns) \<longrightarrow> P \<notin> gen ` {c..}
        \<longrightarrow> map_of ns P = Some p \<longrightarrow> type p = assembly \<longrightarrow> children p = Some pcs
        \<longrightarrow> (\<exists>ns' t'.
              duplicateNode gen d (Id (root_id t)) P (ns, c)
                = Inr (Id (gen c), ns', c + tree_size t)
            \<and> extended gen c (tree_size t) P ns ns'
            \<and> map_of ns' P = Some (p\<lparr>children := Some (pcs @ [Id (gen c)])\<rparr>)
            \<and> represents ns' t' \<and> root_id t' = gen c
            \<and> shape t' = shape (renamed t)
            \<and> tree_ids t' = map gen [c..<c + tree_size t])"
    unfolding clones_def by (elim allE)
  with assms(2-7) show ?thesis by (elim impE) assumption+
qed

lemma duplicateChildren_trees:
  assumes inj: "inj gen"
  shows "\<forall>t\<in>set ts. clones gen d t \<Longrightarrow> list_all (represents ns) ts
     \<Longrightarrow> \<forall>i\<ge>c. gen i \<notin> fst ` set ns \<Longrightarrow> Q \<notin> gen ` {c..}
     \<Longrightarrow> map_of ns Q = Some q \<Longrightarrow> type q = assembly \<Longrightarrow> children q = Some qcs
     \<Longrightarrow> Q \<notin> set (concat (map tree_ids ts))
     \<Longrightarrow> \<exists>ns' ts'.
           duplicateChildren gen d (map (\<lambda>t. Id (root_id t)) ts) Q acc (ns, c)
             = Inr (acc @ map (\<lambda>t. Id (root_id t)) ts', ns', c + sum_list (map tree_size ts))
         \<and> extended gen c (sum_list (map tree_size ts)) Q ns ns'
         \<and> map_of ns' Q = Some (q\<lparr>children := Some (qcs @ map (\<lambda>t. Id (root_id t)) ts')\<rparr>)
         \<and> list_all (represents ns') ts'
         \<and> map shape ts' = map (\<lambda>t. shape (renamed t)) ts
         \<and> concat (map tree_ids ts') = map gen [c..<c + sum_list (map tree_size ts)]"
proof (induction ts arbitrary: ns c acc q qcs)
  case Nil
  have "q\<lparr>children := Some (qcs @ map (\<lambda>t. Id (root_id t)) [])\<rparr> = q"
    using Nil.prems(7) by simp
  then show ?case
    using Nil.prems(5)
    by (intro exI[of _ ns] exI[of _ "[]"]) (simp add: extended_def)
next
  case (Cons t ts)
  let ?s = "tree_size t"
  let ?r = "sum_list (map tree_size ts)"
  have rt: "represents ns t" and rts: "list_all (represents ns) ts"
    using Cons.prems(2) by simp_all
  have ct: "clones gen d t" using Cons.prems(1) by simp
  from clonesD [OF ct rt Cons.prems(3,4,5,6,7)] obtain ns1 t' where
    d1: "duplicateNode gen d (Id (root_id t)) Q (ns, c) = Inr (Id (gen c), ns1, c + ?s)"
    and e1: "extended gen c ?s Q ns ns1"
    and q1: "map_of ns1 Q = Some (q\<lparr>children := Some (qcs @ [Id (gen c)])\<rparr>)"
    and r1: "represents ns1 t'" and i1: "root_id t' = gen c"
    and s1: "shape t' = shape (renamed t)"
    and t1: "tree_ids t' = map gen [c..<c + ?s]"
    by (elim exE conjE)
  have k1: "map fst ns1 = map fst ns @ map gen [c..<c + ?s]"
    and f1: "\<And>j. j \<notin> gen ` {c..<c + ?s} \<Longrightarrow> j \<noteq> Q \<Longrightarrow> map_of ns1 j = map_of ns j"
    using e1 by (simp_all add: extended_def)
  have fr1: "\<forall>i\<ge>c + ?s. gen i \<notin> fst ` set ns1"
    by (rule gen_fresh_later [OF inj Cons.prems(3) k1])
  have old: "j \<notin> gen ` {c..}" if "j \<in> fst ` set ns" for j
  proof
    assume "j \<in> gen ` {c..}"
    then obtain i where i: "j = gen i" "c \<le> i" by auto
    have "gen i \<notin> fst ` set ns" by (rule mp [OF spec [OF Cons.prems(3)] i(2)])
    with that i(1) show False by simp
  qed
  have rts1: "list_all (represents ns1) ts"
    unfolding list_all_iff
  proof
    fix u assume u: "u \<in> set ts"
    then have ru: "represents ns u" using rts by (simp add: list_all_iff)
    have eq: "map_of ns1 j = map_of ns j" if "j \<in> set (tree_ids u)" for j
    proof (rule f1)
      have "j \<in> fst ` set ns" using represents_keys [OF ru] that by blast
      then have "j \<notin> gen ` {c..}" by (rule old)
      then show "j \<notin> gen ` {c..<c + ?s}" by auto
      show "j \<noteq> Q" using that u Cons.prems(8) by auto
    qed
    have "represents ns1 u = represents ns u" by (rule represents_cong) (rule eq)
    then show "represents ns1 u" using ru by simp
  qed
  have Q1: "Q \<notin> gen ` {c + ?s..}" using Cons.prems(4) by auto
  have Qids: "Q \<notin> set (concat (map tree_ids ts))" using Cons.prems(8) by simp
  have cl: "\<forall>u\<in>set ts. clones gen d u" using Cons.prems(1) by simp
  have ty: "type (q\<lparr>children := Some (qcs @ [Id (gen c)])\<rparr>) = assembly"
    using Cons.prems(6) by simp
  have ch: "children (q\<lparr>children := Some (qcs @ [Id (gen c)])\<rparr>) = Some (qcs @ [Id (gen c)])"
    by simp
  from Cons.IH [OF cl rts1 fr1 Q1 q1 ty ch Qids, of "acc @ [Id (gen c)]"]
  obtain ns' ts' where
    d2: "duplicateChildren gen d (map (\<lambda>t. Id (root_id t)) ts) Q (acc @ [Id (gen c)]) (ns1, c + ?s)
           = Inr ((acc @ [Id (gen c)]) @ map (\<lambda>t. Id (root_id t)) ts', ns', c + ?s + ?r)"
    and e2: "extended gen (c + ?s) ?r Q ns1 ns'"
    and q2: "map_of ns' Q = Some (q\<lparr>children := Some (qcs @ [Id (gen c)])\<rparr>
               \<lparr>children := Some ((qcs @ [Id (gen c)]) @ map (\<lambda>t. Id (root_id t)) ts')\<rparr>)"
    and r2: "list_all (represents ns') ts'"
    and s2: "map shape ts' = map (\<lambda>t. shape (renamed t)) ts"
    and t2: "concat (map tree_ids ts') = map gen [c + ?s..<c + ?s + ?r]"
    by (elim exE conjE)
  have k2: "map fst ns' = map fst ns1 @ map gen [c + ?s..<c + ?s + ?r]"
    and f2: "\<And>j. j \<notin> gen ` {c + ?s..<c + ?s + ?r} \<Longrightarrow> j \<noteq> Q \<Longrightarrow> map_of ns' j = map_of ns1 j"
    using e2 by (simp_all add: extended_def)
  have r1': "represents ns' t'"
  proof -
    have "map_of ns' j = map_of ns1 j" if "j \<in> set (tree_ids t')" for j
    proof (rule f2)
      from that obtain i where i: "j = gen i" "c \<le> i" "i < c + ?s" using t1 by auto
      then show "j \<notin> gen ` {c + ?s..<c + ?s + ?r}" using inj by (auto dest: injD)
      show "j \<noteq> Q" using i Cons.prems(4) by auto
    qed
    then have "represents ns' t' = represents ns1 t'" by (rule represents_cong)
    then show ?thesis using r1 by simp
  qed
  have A: "duplicateChildren gen d (map (\<lambda>t. Id (root_id t)) (t # ts)) Q acc (ns, c)
             = Inr (acc @ map (\<lambda>t. Id (root_id t)) (t' # ts'), ns',
                    c + sum_list (map tree_size (t # ts)))"
    using d1 d2 i1 by (simp add: add.assoc)
  have B: "extended gen c (sum_list (map tree_size (t # ts))) Q ns ns'"
    unfolding extended_def
  proof (intro conjI allI impI)
    show "map fst ns' = map fst ns @ map gen [c..<c + sum_list (map tree_size (t # ts))]"
      using k1 k2 upt_split [of c ?s ?r] by (simp add: add.assoc)
    fix j assume j: "j \<notin> gen ` {c..<c + sum_list (map tree_size (t # ts))}" "j \<noteq> Q"
    then have "j \<notin> gen ` {c..<c + ?s}" "j \<notin> gen ` {c + ?s..<c + ?s + ?r}" by auto
    then show "map_of ns' j = map_of ns j" using f1 f2 j(2) by simp
  qed
  have C: "map_of ns' Q = Some (q\<lparr>children := Some (qcs @ map (\<lambda>t. Id (root_id t)) (t' # ts'))\<rparr>)"
    using q2 i1 by simp
  have D: "list_all (represents ns') (t' # ts')" using r1' r2 by simp
  have E: "map shape (t' # ts') = map (\<lambda>t. shape (renamed t)) (t # ts)" using s1 s2 by simp
  have F: "concat (map tree_ids (t' # ts')) = map gen [c..<c + sum_list (map tree_size (t # ts))]"
    using t1 t2 upt_split [of c ?s ?r] by (simp add: add.assoc)
  show ?case
    by (rule exI[of _ ns'], rule exI[of _ "t' # ts'"]) (intro conjI A B C D E F)
qed


lemma not_primitive: "type n \<noteq> primitive \<Longrightarrow> type n = assembly"
  by (cases "type n") simp_all

lemma duplicateNode_tree:
  assumes inj: "inj gen"
  shows "tree_height t \<le> d \<Longrightarrow> clones gen d t"
proof (induction t arbitrary: d)
  case (NodeTree k n ts)
  then obtain d' where d: "d = Suc d'" by (cases d) auto
  have sub: "\<forall>u\<in>set ts. clones gen d' u"
  proof
    fix u assume u: "u \<in> set ts"
    have "tree_height u < tree_height (NodeTree k n ts)" using u by (rule subtree_height)
    then have "tree_height u \<le> d'" using NodeTree.prems d by simp
    then show "clones gen d' u" using u by (intro NodeTree.IH)
  qed
  show ?case
    unfolding clones_def
  proof (intro allI impI)
    fix ns c P p pcs
    let ?t = "NodeTree k n ts"
    let ?s = "tree_size ?t"
    let ?Q = "gen c"
    assume rep: "represents ns ?t" and fr: "\<forall>i\<ge>c. gen i \<notin> fst ` set ns"
      and P: "P \<notin> gen ` {c..}" and p: "map_of ns P = Some p"
      and tp: "type p = assembly" and cp: "children p = Some pcs"
    have n: "map_of ns k = Some n" using rep by simp
    have Qnew: "?Q \<notin> fst ` set ns" using fr by simp
    have PQ: "P \<noteq> ?Q" using P by auto
    have Pold: "P \<in> fst ` set ns" using p by (rule key_of_map_of)
    show "\<exists>ns' t'.
              duplicateNode gen d (Id (root_id ?t)) P (ns, c) = Inr (Id ?Q, ns', c + ?s)
            \<and> extended gen c ?s P ns ns'
            \<and> map_of ns' P = Some (p\<lparr>children := Some (pcs @ [Id ?Q])\<rparr>)
            \<and> represents ns' t' \<and> root_id t' = ?Q
            \<and> shape t' = shape (renamed ?t)
            \<and> tree_ids t' = map gen [c..<c + ?s]"
    proof (cases "type n = primitive")
      case True
      then have ts: "ts = []" using rep by simp
      let ?n' = "n\<lparr>id_node := ?Q, name := name n @ '' (copy)''\<rparr>"
      let ?ns1 = "AList.update ?Q ?n' ns"
      let ?ns' = "AList.update P (p\<lparr>children := Some (pcs @ [Id ?Q])\<rparr>) ?ns1"
      have p1: "map_of ?ns1 P = Some p" using p PQ by (simp add: update_conv')
      have "duplicateNode gen (Suc d') (Id k) P (ns, c) = add_to_parent P ?Q (?ns1, Suc c)"
        by (rule duplicateNode_primitive [where src = "Id k", simplified, OF n True])
      then have A: "duplicateNode gen d (Id (root_id ?t)) P (ns, c) = Inr (Id ?Q, ?ns', c + ?s)"
        unfolding d using add_to_parent_assembly [OF p1 tp cp, of ?Q "Suc c"] ts by simp
      have k1: "map fst ?ns1 = map fst ns @ [?Q]" using Qnew by (rule keys_update_new)
      have "P \<in> fst ` set ?ns1" using p1 by (rule key_of_map_of)
      then have "map fst ?ns' = map fst ?ns1" by (rule keys_update_old)
      then have B: "extended gen c ?s P ns ?ns'"
        using k1 ts by (simp add: extended_def update_conv')
      have C: "map_of ?ns' P = Some (p\<lparr>children := Some (pcs @ [Id ?Q])\<rparr>)"
        by (simp add: update_conv')
      let ?t' = "NodeTree ?Q ?n' []"
      have D: "represents ?ns' ?t'" using True PQ by (simp add: update_conv')
      show ?thesis
        by (rule exI[of _ ?ns'], rule exI[of _ ?t'])
           (use A B C D ts in simp)
    next
      case False
      then have ta: "type n = assembly" by (rule not_primitive)
      have cn: "children n = Some (map (\<lambda>t. Id (root_id t)) ts)"
        and rts: "list_all (represents ns) ts"
        using rep False by simp_all
      let ?r = "sum_list (map tree_size ts)"
      let ?q = "n\<lparr>id_node := ?Q, name := name n @ '' (copy)'', children := Some []\<rparr>"
      let ?ns0 = "AList.update ?Q ?q ns"
      have k0: "map fst ?ns0 = map fst ns @ map gen [c..<c + 1]"
        using keys_update_new [OF Qnew] by simp
      have fr0: "\<forall>i\<ge>c + 1. gen i \<notin> fst ` set ?ns0"
        by (rule gen_fresh_later [OF inj fr k0])
      have ids_old: "j \<in> fst ` set ns" if "j \<in> set (concat (map tree_ids ts))" for j
      proof -
        from that obtain u where u: "u \<in> set ts" "j \<in> set (tree_ids u)" by auto
        then have "represents ns u" using rts by (simp add: list_all_iff)
        from represents_keys [OF this] u(2) show ?thesis by blast
      qed
      have Qids: "?Q \<notin> set (concat (map tree_ids ts))" using ids_old Qnew by blast
      have rts0: "list_all (represents ?ns0) ts"
        unfolding list_all_iff
      proof
        fix u assume u: "u \<in> set ts"
        then have ru: "represents ns u" using rts by (simp add: list_all_iff)
        have eq: "map_of ?ns0 j = map_of ns j" if "j \<in> set (tree_ids u)" for j
        proof -
          have "j \<in> set (concat (map tree_ids ts))" using that u by auto
          then have "j \<noteq> ?Q" using Qids by blast
          then show ?thesis by (simp add: update_conv')
        qed
        have "represents ?ns0 u = represents ns u" by (rule represents_cong) (rule eq)
        then show "represents ?ns0 u" using ru by simp
      qed
      have Q0: "?Q \<notin> gen ` {c + 1..}" using inj by (auto dest: injD)
      have q0: "map_of ?ns0 ?Q = Some ?q" by (simp add: update_conv')
      have tq: "type ?q = assembly" using ta by simp
      have cq: "children ?q = Some []" by simp
      from duplicateChildren_trees [OF inj sub rts0 fr0 Q0 q0 tq cq Qids, of "[]"]
      obtain ns2 ts' where
        d2: "duplicateChildren gen d' (map (\<lambda>t. Id (root_id t)) ts) ?Q [] (?ns0, c + 1)
               = Inr ([] @ map (\<lambda>t. Id (root_id t)) ts', ns2, c + 1 + ?r)"
        and e2: "extended gen (c + 1) ?r ?Q ?ns0 ns2"
        and q2: "map_of ns2 ?Q = Some (?q\<lparr>children := Some ([] @ map (\<lambda>t. Id (root_id t)) ts')\<rparr>)"
        and r2: "list_all (represents ns2) ts'"
        and s2: "map shape ts' = map (\<lambda>t. shape (renamed t)) ts"
        and t2: "concat (map tree_ids ts') = map gen [c + 1..<c + 1 + ?r]"
        by (elim exE conjE)
      let ?nc = "map (\<lambda>t. Id (root_id t)) ts'"
      let ?dA = "?q\<lparr>children := Some ?nc\<rparr>"
      let ?ns3 = "AList.update ?Q (?dA\<lparr>children := Some ?nc\<rparr>) ns2"
      let ?ns' = "AList.update P (p\<lparr>children := Some (pcs @ [Id ?Q])\<rparr>) ?ns3"
      have k2: "map fst ns2 = map fst ?ns0 @ map gen [c + 1..<c + 1 + ?r]"
        and f2: "\<And>j. j \<notin> gen ` {c + 1..<c + 1 + ?r} \<Longrightarrow> j \<noteq> ?Q \<Longrightarrow> map_of ns2 j = map_of ?ns0 j"
        using e2 by (simp_all add: extended_def)
      have q2': "map_of ns2 ?Q = Some ?dA" using q2 by simp
      have tdA: "type ?dA = assembly" using ta by simp
      have Pn: "P \<notin> gen ` {c + 1..<c + 1 + ?r}" using P by auto
      have p2: "map_of ns2 P = Some p" using f2 [OF Pn PQ] p PQ by (simp add: update_conv')
      have p3: "map_of ?ns3 P = Some p" using p2 PQ by (simp add: update_conv')
      have d2': "duplicateChildren gen d' (map (\<lambda>t. Id (root_id t)) ts) ?Q [] (?ns0, Suc c)
               = Inr (?nc, ns2, c + 1 + ?r)"
        using d2 by simp
      have "duplicateNode gen (Suc d') (Id k) P (ns, c)
              = add_to_parent P ?Q (?ns3, c + 1 + ?r)"
        by (rule duplicateNode_assembly [where src = "Id k", simplified, OF n False cn d2' q2' tdA])
      then have A: "duplicateNode gen d (Id (root_id ?t)) P (ns, c) = Inr (Id ?Q, ?ns', c + ?s)"
        unfolding d using add_to_parent_assembly [OF p3 tp cp, of ?Q "c + 1 + ?r"] by simp
      have Q2: "?Q \<in> fst ` set ns2" using q2' by (rule key_of_map_of)
      have k3: "map fst ?ns3 = map fst ns2" using Q2 by (rule keys_update_old)
      have "P \<in> fst ` set ?ns3" using p3 by (rule key_of_map_of)
      then have k4: "map fst ?ns' = map fst ?ns3" by (rule keys_update_old)
      have keys: "map fst ?ns' = map fst ns @ map gen [c..<c + ?s]"
        using k4 k3 k2 k0 upt_split [of c 1 ?r] by (simp add: add.assoc)
      have B: "extended gen c ?s P ns ?ns'"
        unfolding extended_def
      proof (intro conjI allI impI)
        show "map fst ?ns' = map fst ns @ map gen [c..<c + ?s]" by (rule keys)
        fix j assume j: "j \<notin> gen ` {c..<c + ?s}" "j \<noteq> P"
        then have jQ: "j \<noteq> ?Q" and jn: "j \<notin> gen ` {c + 1..<c + 1 + ?r}" by auto
        have "map_of ?ns' j = map_of ns2 j" using j(2) jQ by (simp add: update_conv')
        also have "\<dots> = map_of ?ns0 j" using jn jQ by (rule f2)
        also have "\<dots> = map_of ns j" using jQ by (simp add: update_conv')
        finally show "map_of ?ns' j = map_of ns j" .
      qed
      have C: "map_of ?ns' P = Some (p\<lparr>children := Some (pcs @ [Id ?Q])\<rparr>)"
        by (simp add: update_conv')
      let ?t' = "NodeTree ?Q ?dA ts'"
      have r': "list_all (represents ?ns') ts'"
        unfolding list_all_iff
      proof
        fix u assume u: "u \<in> set ts'"
        then have ru: "represents ns2 u" using r2 by (simp add: list_all_iff)
        have eq: "map_of ?ns' j = map_of ns2 j" if "j \<in> set (tree_ids u)" for j
        proof -
          have "j \<in> set (concat (map tree_ids ts'))" using that u by auto
          then obtain i where i: "j = gen i" "c + 1 \<le> i" using t2 by auto
          then have "j \<noteq> ?Q" using inj by (auto dest: injD)
          moreover have "j \<noteq> P" using i P by auto
          ultimately show ?thesis by (simp add: update_conv')
        qed
        have "represents ?ns' u = represents ns2 u" by (rule represents_cong) (rule eq)
        then show "represents ?ns' u" using ru by simp
      qed
      have D: "represents ?ns' ?t'"
        using r' False PQ by (simp add: update_conv')
      have E: "shape ?t' = shape (renamed ?t)" using s2 by simp
      have F: "tree_ids ?t' = map gen [c..<c + ?s]"
        using t2 upt_conv_Cons [of c "c + ?s"] by simp
      show ?thesis
        by (rule exI[of _ ?ns'], rule exI[of _ ?t']) (use A B C D E F in simp)
    qed
  qed
qed


lemma distinct_concat_member:
  "distinct (concat xss) \<Longrightarrow> xs \<in> set xss \<Longrightarrow> distinct xs"
  by (induction xss) auto

lemma old_key_not_generated:
  assumes "\<forall>i\<ge>c. gen i \<notin> A" and "j \<in> A"
  shows "j \<notin> gen ` {c..}"
proof
  assume "j \<in> gen ` {c..}"
  then obtain i where i: "j = gen i" "c \<le> i" by auto
  have "gen i \<notin> A" by (rule mp [OF spec [OF assms(1)] i(2)])
  with assms(2) i(1) show False by simp
qed

lemma descendants_tree:
  "represents ns t \<Longrightarrow> distinct (tree_ids t)
   \<Longrightarrow> descendants ns (root_id t) = concat (map tree_ids (subtrees t))"
proof (induction t arbitrary: ns)
  case (NodeTree k n ts)
  have n: "map_of ns k = Some n" using NodeTree.prems(1) by simp
  show ?case
  proof (cases "type n = primitive")
    case True
    then have "ts = []" "children_of n = []"
      using NodeTree.prems(1) by (simp_all add: children_of_def)
    then show ?thesis using n by (simp add: descendants.simps [of ns k])
  next
    case False
    then have ta: "type n = assembly" by (rule not_primitive)
    have cn: "children_of n = map (\<lambda>t. Id (root_id t)) ts"
      and rts: "list_all (represents ns) ts"
      using NodeTree.prems(1) False ta by (simp_all add: children_of_def)
    have sub: "root_id u # descendants (AList.delete k ns) (root_id u) = tree_ids u"
      if u: "u \<in> set ts" for u
    proof -
      have ru: "represents ns u" using rts u by (simp add: list_all_iff)
      have "distinct (concat (map tree_ids ts))" using NodeTree.prems(2) by simp
      moreover have "tree_ids u \<in> set (map tree_ids ts)" using u by simp
      ultimately have du: "distinct (tree_ids u)" by (rule distinct_concat_member)
      have ku: "k \<notin> set (tree_ids u)"
        using NodeTree.prems(2) u by auto
      have "map_of (AList.delete k ns) j = map_of ns j" if "j \<in> set (tree_ids u)" for j
        using that ku by (auto simp: delete_conv')
      then have "represents (AList.delete k ns) u = represents ns u" by (rule represents_cong)
      then have "represents (AList.delete k ns) u" using ru by simp
      from NodeTree.IH [OF u this du] show ?thesis by (cases u) simp
    qed
    have "descendants ns k
            = concat (map (\<lambda>u. root_id u # descendants (AList.delete k ns) (root_id u)) ts)"
      using n cn by (simp add: descendants.simps [of ns k] comp_def)
    also have "\<dots> = concat (map tree_ids ts)"
      using sub by (simp cong: map_cong)
    finally show ?thesis by simp
  qed
qed

lemma distinct_subset_length:
  assumes "distinct xs" and "set xs \<subseteq> set ys"
  shows "length xs \<le> length ys"
proof -
  have "length xs = card (set xs)" using assms(1) by (simp add: distinct_card)
  also have "\<dots> \<le> card (set ys)" using assms(2) by (simp add: card_mono)
  also have "\<dots> \<le> length ys" by (rule card_length)
  finally show ?thesis .
qed

text \<open>
  The \<^verbatim>\<open>id\<close> field of the clones. \<open>keyed_from gen c0 ns\<close>: every entry of the table under
  an identifier the generator returns from the count \<open>c0\<close> on has that identifier in its
  \<^verbatim>\<open>id\<close> field. The duplication keeps this, whatever the table is.
\<close>

definition keyed_from :: "IdGen \<Rightarrow> nat \<Rightarrow> Nodes \<Rightarrow> bool" where
  "keyed_from gen c0 ns = (\<forall>i\<ge>c0. \<forall>n. map_of ns (gen i) = Some n \<longrightarrow> id_node n = gen i)"

lemma keyed_from_update:
  assumes "keyed_from gen c0 ns" and "\<And>i. c0 \<le> i \<Longrightarrow> k = gen i \<Longrightarrow> id_node v = k"
  shows "keyed_from gen c0 (AList.update k v ns)"
  using assms by (auto simp: keyed_from_def update_conv')

lemma keyed_from_node:
  "keyed_from gen c0 ns \<Longrightarrow> map_of ns k = Some n \<Longrightarrow> c0 \<le> i \<Longrightarrow> k = gen i \<Longrightarrow> id_node n = k"
  by (auto simp: keyed_from_def)

lemma keyed_add_to_parent:
  assumes "add_to_parent P k (ns3, c3) = Inr (r, ns', c')" and "keyed_from gen c0 ns3"
  shows "keyed_from gen c0 ns' \<and> c' = c3"
proof (cases "map_of ns3 P")
  case None
  then show ?thesis using assms by (simp add: add_to_parent_def)
next
  case (Some p)
  show ?thesis
  proof (cases "type p = assembly")
    case False
    then show ?thesis using assms Some by (simp add: add_to_parent_def)
  next
    case True
    then obtain pcs where pcs: "children p = Some pcs"
      using assms(1) Some by (cases "children p") (simp_all add: add_to_parent_def)
    have e: "ns' = AList.update P (p\<lparr>children := Some (pcs @ [Id k])\<rparr>) ns3" "c' = c3"
      using assms(1) Some True pcs by (auto simp: add_to_parent_def)
    have "keyed_from gen c0 (AList.update P (p\<lparr>children := Some (pcs @ [Id k])\<rparr>) ns3)"
    proof (rule keyed_from_update [OF assms(2)])
      fix i assume "c0 \<le> i" "P = gen i"
      then have "id_node p = P" using assms(2) Some by (intro keyed_from_node)
      then show "id_node (p\<lparr>children := Some (pcs @ [Id k])\<rparr>) = P" by simp
    qed
    then show ?thesis using e by simp
  qed
qed

definition keeps_keyed :: "IdGen \<Rightarrow> nat \<Rightarrow> nat \<Rightarrow> bool" where
  "keeps_keyed gen c0 d =
     (\<forall>src P ns c r ns' c'.
        duplicateNode gen d src P (ns, c) = Inr (r, ns', c') \<longrightarrow> c0 \<le> c \<longrightarrow> keyed_from gen c0 ns
        \<longrightarrow> keyed_from gen c0 ns' \<and> c \<le> c')"

lemma keeps_keyedD:
  "keeps_keyed gen c0 d \<Longrightarrow> duplicateNode gen d src P (ns, c) = Inr (r, ns', c') \<Longrightarrow> c0 \<le> c
   \<Longrightarrow> keyed_from gen c0 ns \<Longrightarrow> keyed_from gen c0 ns' \<and> c \<le> c'"
  unfolding keeps_keyed_def by (elim allE impE) assumption+

lemma keyed_duplicateChildren:
  assumes node: "keeps_keyed gen c0 d"
  shows "duplicateChildren gen d cs newId acc (ns, c) = Inr (rs, ns', c') \<Longrightarrow> c0 \<le> c
         \<Longrightarrow> keyed_from gen c0 ns \<Longrightarrow> keyed_from gen c0 ns' \<and> c \<le> c'"
proof (induction cs arbitrary: acc ns c)
  case Nil
  then show ?case by simp
next
  case (Cons a cs)
  from Cons.prems(1) obtain r1 ns1 c1 where
    1: "duplicateNode gen d a newId (ns, c) = Inr (r1, ns1, c1)"
    and 2: "duplicateChildren gen d cs newId (acc @ [r1]) (ns1, c1) = Inr (rs, ns', c')"
    by (auto split: sum.splits)
  from keeps_keyedD [OF node 1 Cons.prems(2,3)]
  have k1: "keyed_from gen c0 ns1" and l1: "c \<le> c1" by simp_all
  have "c0 \<le> c1" using Cons.prems(2) l1 by simp
  from Cons.IH [OF 2 this k1] show ?case using l1 by simp
qed

lemma keyed_duplicateNode: "keeps_keyed gen c0 d"
proof (induction d)
  case 0
  show ?case by (simp add: keeps_keyed_def duplicateNode.simps)
next
  case (Suc d)
  show ?case
    unfolding keeps_keyed_def
  proof (intro allI impI)
    fix src P ns c r ns' c'
    assume dup: "duplicateNode gen (Suc d) src P (ns, c) = Inr (r, ns', c')"
      and c: "c0 \<le> c" and k: "keyed_from gen c0 ns"
    show "keyed_from gen c0 ns' \<and> c \<le> c'"
    proof (cases "map_of ns (key_of src)")
      case None
      then show ?thesis using dup k by (simp add: duplicateNode.simps)
    next
      case (Some n)
      show ?thesis
      proof (cases "type n = primitive")
        case True
        let ?ns1 = "AList.update (gen c) (n\<lparr>id_node := gen c, name := name n @ '' (copy)''\<rparr>) ns"
        have "add_to_parent P (gen c) (?ns1, Suc c) = Inr (r, ns', c')"
          using dup duplicateNode_primitive [OF Some True] by simp
        moreover have "keyed_from gen c0 ?ns1" by (rule keyed_from_update [OF k]) simp
        ultimately have "keyed_from gen c0 ns' \<and> c' = Suc c" by (rule keyed_add_to_parent)
        then show ?thesis by simp
      next
        case False
        let ?ns1 = "AList.update (gen c)
                      (n\<lparr>id_node := gen c, name := name n @ '' (copy)'', children := Some []\<rparr>) ns"
        have k1: "keyed_from gen c0 ?ns1" by (rule keyed_from_update [OF k]) simp
        from dup Some False obtain cs where cs: "children n = Some cs"
          by (cases "children n") (simp_all add: duplicateNode.simps generateId_def)
        from dup Some False cs obtain newChildren ns2 c2 where
          ch: "duplicateChildren gen d cs (gen c) [] (?ns1, Suc c) = Inr (newChildren, ns2, c2)"
          by (cases "duplicateChildren gen d cs (gen c) [] (?ns1, Suc c)")
            (auto simp: duplicateNode.simps generateId_def)
        have "c0 \<le> Suc c" using c by simp
        from keyed_duplicateChildren [OF Suc ch this k1]
        have k2: "keyed_from gen c0 ns2" and l2: "Suc c \<le> c2" by simp_all
        from dup Some False cs ch obtain dA where dA: "map_of ns2 (gen c) = Some dA"
          by (cases "map_of ns2 (gen c)") (simp_all add: duplicateNode.simps generateId_def)
        have idA: "id_node dA = gen c" using k2 dA c by (rule keyed_from_node) simp
        show ?thesis
        proof (cases "type dA = assembly")
          case True
          let ?ns3 = "AList.update (gen c) (dA\<lparr>children := Some newChildren\<rparr>) ns2"
          have "add_to_parent P (gen c) (?ns3, c2) = Inr (r, ns', c')"
            using dup duplicateNode_assembly [OF Some False cs ch dA True] by simp
          moreover have "keyed_from gen c0 ?ns3"
            by (rule keyed_from_update [OF k2]) (simp add: idA)
          ultimately have "keyed_from gen c0 ns' \<and> c' = c2" by (rule keyed_add_to_parent)
          then show ?thesis using l2 by simp
        next
          case F: False
          have "add_to_parent P (gen c) (ns2, c2) = Inr (r, ns', c')"
            using dup Some False cs ch dA F
            by (simp add: duplicateNode.simps generateId_def add_to_parent_def)
          then have "keyed_from gen c0 ns' \<and> c' = c2" using k2 by (rule keyed_add_to_parent)
          then show ?thesis using l2 by simp
        qed
      qed
    qed
  qed
qed

text \<open>
  C7 (duplication fidelity), as amended. The generator returns distinct identifiers, none of
  them a key of the table from the count \<open>c\<close> on, and the keys of the table are distinct.
  For a node that is not the root, has a parent (which \<open>findParent\<close> finds, its
  identifier a non-empty string) and is the root of a tree \<open>t\<close> held by the table in
  which no node occurs twice, with \<open>K\<close> descendants, \<^verbatim>\<open>DUPLICATE_NODE\<close> returns a state
  with \<open>K + 1\<close> new nodes, one for the node and one for each descendant: the keys of the
  new table are the old keys and the next \<open>K + 1\<close> identifiers of the generator, which are
  pairwise distinct and not keys before; each new node has its key in its \<^verbatim>\<open>id\<close> field;
  the table holds a tree \<open>t'\<close> under the first of them that is a copy of \<open>t\<close> (same shape
  and order of children, every name with \<open>'' (copy)''\<close> appended) whose identifiers are
  exactly the new ones, in the order of the tree; the clone's root is appended to the
  children of the parent of the source; every other entry, the source subtree included, is
  as before; and the clone's root is selected. \<^verbatim>\<open>DUPLICATE_NODE\<close> on the root leaves model
  and selection unchanged.
\<close>

theorem duplication_fidelity:
  assumes "inj gen" and "\<forall>i\<ge>c. gen i \<notin> fst ` set (nodes (model state))"
      and "distinct (map fst (nodes (model state)))"
  shows "(represents (nodes (model state)) t \<and> root_id t = nodeId \<and> distinct (tree_ids t)
          \<and> nodeId \<noteq> rootId (model state)
          \<and> findParent nodeId (model state) = Some parent \<and> parent \<noteq> []
          \<and> K = length (getDescendants nodeId (model state))
         \<longrightarrow> (\<exists>state' t' parentNode.
               modelReducer gen c state (DUPLICATE_NODE nodeId) = Inr (state', c + K + 1)
             \<and> set (map fst (nodes (model state')))
                 = set (map fst (nodes (model state))) \<union> set (map gen [c..<c + K + 1])
             \<and> distinct (map fst (nodes (model state')))
             \<and> length (nodes (model state')) = length (nodes (model state)) + (K + 1)
             \<and> distinct (map gen [c..<c + K + 1])
             \<and> set (map gen [c..<c + K + 1]) \<inter> fst ` set (nodes (model state)) = {}
             \<and> (\<forall>j\<in>set (map gen [c..<c + K + 1]).
                   map_option id_node (map_of (nodes (model state')) j) = Some j)
             \<and> represents (nodes (model state')) t' \<and> root_id t' = gen c
             \<and> is_copy t t'
             \<and> tree_ids t' = map gen [c..<c + K + 1]
             \<and> map_of (nodes (model state)) parent = Some parentNode
             \<and> map_of (nodes (model state')) parent
                 = Some (parentNode\<lparr>children := Some (children_of parentNode @ [Id (gen c)])\<rparr>)
             \<and> (\<forall>k. k \<noteq> parent \<longrightarrow> k \<notin> gen ` {c..<c + K + 1}
                    \<longrightarrow> map_of (nodes (model state')) k = map_of (nodes (model state)) k)
             \<and> rootId (model state') = rootId (model state)
             \<and> selectedNodeId (selection state') = Some (gen c)
             \<and> hoveredNodeId (selection state') = hoveredNodeId (selection state)))
       \<and> (\<exists>state'. modelReducer gen c state (DUPLICATE_NODE (rootId (model state)))
                      = Inr (state', c)
            \<and> model state' = model state \<and> selection state' = selection state)"
proof (intro conjI impI)
  let ?ns = "nodes (model state)"
  assume a: "represents ?ns t \<and> root_id t = nodeId \<and> distinct (tree_ids t)
          \<and> nodeId \<noteq> rootId (model state)
          \<and> findParent nodeId (model state) = Some parent \<and> parent \<noteq> []
          \<and> K = length (getDescendants nodeId (model state))"
  then have rep: "represents ?ns t" and rid: "root_id t = nodeId" and dis: "distinct (tree_ids t)"
    and nr: "nodeId \<noteq> rootId (model state)"
    and fp: "findParent nodeId (model state) = Some parent" and pne: "parent \<noteq> []"
    and K: "K = length (getDescendants nodeId (model state))"
    by simp_all
  have "tree_ids t = nodeId # getDescendants nodeId (model state)"
    using descendants_tree [OF rep dis] rid by (cases t) (simp add: getDescendants_def)
  then have size: "tree_size t = K + 1" using K length_tree_ids [of t] by simp
  obtain node where node: "map_of ?ns nodeId = Some node"
    using rep rid by (cases t) auto
  from findParent_SomeD [OF fp assms(3)] obtain parentNode where
    p: "map_of ?ns parent = Some parentNode" and pc: "Id nodeId \<in> set (children_of parentNode)"
    by blast
  from children_of_nonempty [OF pc] have
    tp: "type parentNode = assembly" and cp: "children parentNode = Some (children_of parentNode)"
    by simp_all
  have "parent \<in> fst ` set ?ns" using p by (rule key_of_map_of)
  with assms(2) have P: "parent \<notin> gen ` {c..}" by (rule old_key_not_generated)
  have "set (tree_ids t) \<subseteq> set (map fst ?ns)" using represents_keys [OF rep] by simp
  with dis have "length (tree_ids t) \<le> length (map fst ?ns)"
    by (rule distinct_subset_length)
  then have "tree_height t \<le> Suc (length ?ns)"
    using tree_height_le_size [of t] length_tree_ids [of t] by simp
  then have "clones gen (Suc (length ?ns)) t" by (rule duplicateNode_tree [OF assms(1)])
  from clonesD [OF this rep assms(2) P p tp cp] obtain ns' t' where
    d: "duplicateNode gen (Suc (length ?ns)) (Id (root_id t)) parent (?ns, c)
          = Inr (Id (gen c), ns', c + tree_size t)"
    and e: "extended gen c (tree_size t) parent ?ns ns'"
    and q: "map_of ns' parent
              = Some (parentNode\<lparr>children := Some (children_of parentNode @ [Id (gen c)])\<rparr>)"
    and r: "represents ns' t'" and i: "root_id t' = gen c"
    and s: "shape t' = shape (renamed t)"
    and ids: "tree_ids t' = map gen [c..<c + tree_size t]"
    by (elim exE conjE)
  let ?new = "ModelState ((model state)\<lparr>nodes := ns'\<rparr>)
                ((selection state)\<lparr>selectedNodeId := Some (gen c)\<rparr>)
                (history state) (historyIndex state)"
  have "reduce_DUPLICATE_NODE gen c state nodeId = Inr (?new, c + K + 1)"
    using node nr fp pne p tp d rid size
    by (simp add: reduce_DUPLICATE_NODE_def truthy_def Let_def)
  then have A: "modelReducer gen c state (DUPLICATE_NODE nodeId)
                  = Inr (saveToHistory state ?new, c + K + 1)"
    by (simp add: modelReducer_def)
  have B: "map fst ns' = map fst ?ns @ map gen [c..<c + K + 1]"
    and F: "\<forall>k. k \<noteq> parent \<longrightarrow> k \<notin> gen ` {c..<c + K + 1} \<longrightarrow> map_of ns' k = map_of ?ns k"
    using e size by (simp_all add: extended_def)
  have "inj_on gen (set [c..<c + K + 1])" using assms(1) by (rule inj_on_subset) simp
  then have C: "distinct (map gen [c..<c + K + 1])" by (simp add: distinct_map)
  have D: "set (map gen [c..<c + K + 1]) \<inter> fst ` set ?ns = {}"
  proof -
    have "j \<notin> set (map gen [c..<c + K + 1])" if "j \<in> fst ` set ?ns" for j
      using old_key_not_generated [OF assms(2) that] by auto
    then show ?thesis by blast
  qed
  have B1: "set (map fst ns') = set (map fst ?ns) \<union> set (map gen [c..<c + K + 1])"
    by (simp only: B set_append)
  have "set (map fst ?ns) \<inter> set (map gen [c..<c + K + 1]) = {}" using D by auto
  then have B2: "distinct (map fst ns')" unfolding B using assms(3) C by simp
  have "length (map fst ns') = length (map fst ?ns) + (K + 1)" by (simp only: B) simp
  then have B3: "length ns' = length ?ns + (K + 1)" by simp
  have "keyed_from gen c ?ns"
    unfolding keyed_from_def
  proof (intro allI impI)
    fix i n assume "c \<le> i" and n: "map_of ?ns (gen i) = Some n"
    then have "gen i \<notin> fst ` set ?ns" using assms(2) by simp
    then show "id_node n = gen i" using key_of_map_of [OF n] by simp
  qed
  with keeps_keyedD [OF keyed_duplicateNode d, of c] have kf: "keyed_from gen c ns'" by simp
  have G: "\<forall>j\<in>set (map gen [c..<c + K + 1]). map_option id_node (map_of ns' j) = Some j"
  proof
    fix j assume j: "j \<in> set (map gen [c..<c + K + 1])"
    then obtain i where i: "j = gen i" "c \<le> i" by auto
    have "j \<in> set (map fst ns')" unfolding B1 using j by (rule UnI2)
    then obtain n where n: "map_of ns' j = Some n"
      by (cases "map_of ns' j") (auto simp: map_of_eq_None_iff)
    have "id_node n = j" using kf n i(2) i(1) by (rule keyed_from_node)
    then show "map_option id_node (map_of ns' j) = Some j" using n by simp
  qed
  show "\<exists>state' t' parentNode.
               modelReducer gen c state (DUPLICATE_NODE nodeId) = Inr (state', c + K + 1)
             \<and> set (map fst (nodes (model state')))
                 = set (map fst (nodes (model state))) \<union> set (map gen [c..<c + K + 1])
             \<and> distinct (map fst (nodes (model state')))
             \<and> length (nodes (model state')) = length (nodes (model state)) + (K + 1)
             \<and> distinct (map gen [c..<c + K + 1])
             \<and> set (map gen [c..<c + K + 1]) \<inter> fst ` set (nodes (model state)) = {}
             \<and> (\<forall>j\<in>set (map gen [c..<c + K + 1]).
                   map_option id_node (map_of (nodes (model state')) j) = Some j)
             \<and> represents (nodes (model state')) t' \<and> root_id t' = gen c
             \<and> is_copy t t'
             \<and> tree_ids t' = map gen [c..<c + K + 1]
             \<and> map_of (nodes (model state)) parent = Some parentNode
             \<and> map_of (nodes (model state')) parent
                 = Some (parentNode\<lparr>children := Some (children_of parentNode @ [Id (gen c)])\<rparr>)
             \<and> (\<forall>k. k \<noteq> parent \<longrightarrow> k \<notin> gen ` {c..<c + K + 1}
                    \<longrightarrow> map_of (nodes (model state')) k = map_of (nodes (model state)) k)
             \<and> rootId (model state') = rootId (model state)
             \<and> selectedNodeId (selection state') = Some (gen c)
             \<and> hoveredNodeId (selection state') = hoveredNodeId (selection state)"
  proof (intro exI conjI)
    show "modelReducer gen c state (DUPLICATE_NODE nodeId)
            = Inr (saveToHistory state ?new, c + K + 1)" by (rule A)
    show "set (map fst (nodes (model (saveToHistory state ?new))))
            = set (map fst ?ns) \<union> set (map gen [c..<c + K + 1])" using B1 by simp
    show "distinct (map fst (nodes (model (saveToHistory state ?new))))" using B2 by simp
    show "length (nodes (model (saveToHistory state ?new))) = length ?ns + (K + 1)"
      using B3 by simp
    show "distinct (map gen [c..<c + K + 1])" by (rule C)
    show "set (map gen [c..<c + K + 1]) \<inter> fst ` set ?ns = {}" by (rule D)
    show "\<forall>j\<in>set (map gen [c..<c + K + 1]).
            map_option id_node (map_of (nodes (model (saveToHistory state ?new))) j) = Some j"
      using G by simp
    show "represents (nodes (model (saveToHistory state ?new))) t'" using r by simp
    show "root_id t' = gen c" by (rule i)
    show "is_copy t t'" using s by (simp add: is_copy_def)
    show "tree_ids t' = map gen [c..<c + K + 1]" using ids size by simp
    show "map_of ?ns parent = Some parentNode" by (rule p)
    show "map_of (nodes (model (saveToHistory state ?new))) parent
            = Some (parentNode\<lparr>children := Some (children_of parentNode @ [Id (gen c)])\<rparr>)"
      using q by simp
    show "\<forall>k. k \<noteq> parent \<longrightarrow> k \<notin> gen ` {c..<c + K + 1}
            \<longrightarrow> map_of (nodes (model (saveToHistory state ?new))) k = map_of ?ns k"
      using F by simp
    show "rootId (model (saveToHistory state ?new)) = rootId (model state)" by simp
    show "selectedNodeId (selection (saveToHistory state ?new)) = Some (gen c)" by simp
    show "hoveredNodeId (selection (saveToHistory state ?new)) = hoveredNodeId (selection state)"
      by simp
  qed
next
  have "reduce_DUPLICATE_NODE gen c state (rootId (model state)) = Inr (state, c)"
    by (simp add: reduce_DUPLICATE_NODE_def split: option.splits)
  then show "\<exists>state'. modelReducer gen c state (DUPLICATE_NODE (rootId (model state)))
                      = Inr (state', c)
            \<and> model state' = model state \<and> selection state' = selection state"
    by (simp add: modelReducer_def)
qed


text \<open>
  Witness: duplicating the assembly \<open>''ni''\<close> of the nested example, which has the one
  descendant \<open>''nii''\<close>, draws two identifiers and adds two nodes.
\<close>

definition example_primitive :: ModelNode where
  "example_primitive =
     \<lparr>id_node = ''nii'', type = primitive, name = ''Mesh 1'',
      transform = DEFAULT_TRANSFORM, visible = True,
      primitiveType = Some box, properties = Some (PRIMITIVE_DEFAULTS box),
      color = Some ''#ffffff'', children = None\<rparr>"

definition example_subtree :: NodeTree where
  "example_subtree = NodeTree ''ni'' example_assembly [NodeTree ''nii'' example_primitive []]"

lemma inj_tally_ids: "inj tally_ids"
proof (rule injI)
  fix a b assume "tally_ids a = tally_ids b"
  then have "length (tally_ids a) = length (tally_ids b)" by simp
  then show "a = b" by (simp add: tally_ids_def)
qed

lemma tally_ids_fresh:
  assumes "\<forall>k\<in>set ks. length k \<le> c"
  shows "\<forall>i\<ge>c. tally_ids i \<notin> set ks"
proof (intro allI impI notI)
  fix i assume "c \<le> i" and "tally_ids i \<in> set ks"
  with assms have "length (tally_ids i) \<le> c" by blast
  then show False using \<open>c \<le> i\<close> by (simp add: tally_ids_def)
qed

theorem duplication_fidelity_witness:
  "inj tally_ids
   \<and> distinct (map fst (nodes (model example_nested)))
   \<and> represents (nodes (model example_nested)) example_subtree
   \<and> root_id example_subtree = ''ni'' \<and> distinct (tree_ids example_subtree)
   \<and> ''ni'' \<noteq> rootId (model example_nested)
   \<and> findParent ''ni'' (model example_nested) = Some ''n'' \<and> ''n'' \<noteq> []
   \<and> (1::nat) = length (getDescendants ''ni'' (model example_nested))
   \<and> (\<exists>state' t'.
         modelReducer tally_ids 3 example_nested (DUPLICATE_NODE ''ni'') = Inr (state', 3 + 1 + 1)
       \<and> set (map fst (nodes (model state'))) = {''n'', ''ni'', ''nii'', ''niii'', ''niiii''}
       \<and> length (nodes (model state')) = 5
       \<and> map_option id_node (map_of (nodes (model state')) ''niii'') = Some ''niii''
       \<and> map_option id_node (map_of (nodes (model state')) ''niiii'') = Some ''niiii''
       \<and> represents (nodes (model state')) t' \<and> root_id t' = ''niii''
       \<and> tree_ids t' = [''niii'', ''niiii'']
       \<and> is_copy example_subtree t'
       \<and> selectedNodeId (selection state') = Some ''niii'')
   \<and> (\<exists>state'. modelReducer tally_ids 3 example_nested (DUPLICATE_NODE (rootId (model example_nested)))
                   = Inr (state', 3)
        \<and> model state' = model example_nested \<and> selection state' = selection example_nested)"
proof -
  have k: "map fst (nodes (model example_nested)) = [''n'', ''ni'', ''nii'']" by code_simp
  have g: "map tally_ids [3..<3 + 1 + 1] = [''niii'', ''niiii'']" "tally_ids 3 = ''niii''"
    by code_simp+
  have h1: "inj tally_ids" by (rule inj_tally_ids)
  have "\<forall>i\<ge>3. tally_ids i \<notin> set (map fst (nodes (model example_nested)))"
    unfolding k by (rule tally_ids_fresh) simp
  then have h2: "\<forall>i\<ge>3. tally_ids i \<notin> fst ` set (nodes (model example_nested))" by simp
  have h3: "distinct (map fst (nodes (model example_nested)))" unfolding k by simp
  have a: "represents (nodes (model example_nested)) example_subtree
          \<and> root_id example_subtree = ''ni'' \<and> distinct (tree_ids example_subtree)
          \<and> ''ni'' \<noteq> rootId (model example_nested)
          \<and> findParent ''ni'' (model example_nested) = Some ''n'' \<and> ''n'' \<noteq> []
          \<and> (1::nat) = length (getDescendants ''ni'' (model example_nested))"
    by code_simp
  note t = duplication_fidelity [OF h1 h2 h3, where t = example_subtree and nodeId = "''ni''"
             and parent = "''n''" and K = 1]
  from mp [OF conjunct1 [OF t] a] obtain state' t' where
    x: "modelReducer tally_ids 3 example_nested (DUPLICATE_NODE ''ni'') = Inr (state', 3 + 1 + 1)"
    "set (map fst (nodes (model state')))
       = set (map fst (nodes (model example_nested))) \<union> set (map tally_ids [3..<3 + 1 + 1])"
    "length (nodes (model state')) = length (nodes (model example_nested)) + (1 + 1)"
    "\<forall>j\<in>set (map tally_ids [3..<3 + 1 + 1]).
       map_option id_node (map_of (nodes (model state')) j) = Some j"
    "represents (nodes (model state')) t'" "root_id t' = tally_ids 3"
    "is_copy example_subtree t'"
    "tree_ids t' = map tally_ids [3..<3 + 1 + 1]"
    "selectedNodeId (selection state') = Some (tally_ids 3)"
    by (elim exE conjE)
  have "length (map fst (nodes (model example_nested))) = 3" unfolding k by simp
  then have l: "length (nodes (model example_nested)) = 3" by simp
  have x1: "set (map fst (nodes (model state'))) = {''n'', ''ni'', ''nii'', ''niii'', ''niiii''}"
    using x(2) unfolding k g by auto
  have x2: "length (nodes (model state')) = 5" using x(3) l by simp
  have x3: "map_option id_node (map_of (nodes (model state')) ''niii'') = Some ''niii''"
    "map_option id_node (map_of (nodes (model state')) ''niiii'') = Some ''niiii''"
    using x(4) unfolding g by simp_all
  have x4: "root_id t' = ''niii''" "tree_ids t' = [''niii'', ''niiii'']"
    "selectedNodeId (selection state') = Some ''niii''"
    using x(6,8,9) unfolding g by simp_all
  have y: "\<exists>state' t'.
         modelReducer tally_ids 3 example_nested (DUPLICATE_NODE ''ni'') = Inr (state', 3 + 1 + 1)
       \<and> set (map fst (nodes (model state'))) = {''n'', ''ni'', ''nii'', ''niii'', ''niiii''}
       \<and> length (nodes (model state')) = 5
       \<and> map_option id_node (map_of (nodes (model state')) ''niii'') = Some ''niii''
       \<and> map_option id_node (map_of (nodes (model state')) ''niiii'') = Some ''niiii''
       \<and> represents (nodes (model state')) t' \<and> root_id t' = ''niii''
       \<and> tree_ids t' = [''niii'', ''niiii'']
       \<and> is_copy example_subtree t'
       \<and> selectedNodeId (selection state') = Some ''niii''"
    by (intro exI[of _ state'] exI[of _ t'] conjI x(1) x1 x2 x3 x(5) x4 x(7))
  show ?thesis
    by (intro conjI h1 h3 y conjunct2 [OF t]) (use a in simp_all)
qed

text \<open>
  Counterexample to C7 as stated: the assembly \<open>''ni''\<close> of the one-child example has
  \<open>K = 0\<close> descendants, and duplicating it adds one node to the two of the table.
\<close>

theorem duplicate_childless_assembly_adds_a_node:
  "getDescendants ''ni'' (model example_one_child) = []
   \<and> length (nodes (model example_one_child)) = 2
   \<and> map_sum id (\<lambda>r. length (nodes (model (fst r))))
        (modelReducer tally_ids 2 example_one_child (DUPLICATE_NODE ''ni'')) = Inr 3"
  by code_simp

section \<open>The table of nodes as a tree\<close>

text \<open>The subtrees of a tree, itself included, root first.\<close>

fun nodes_of :: "NodeTree \<Rightarrow> NodeTree list" where
  "nodes_of (NodeTree k n ts) = NodeTree k n ts # concat (map nodes_of ts)"

text \<open>What the shape of the tree reads of an entry: its tag and its children list.\<close>

definition struct :: "Nodes \<Rightarrow> NodeId \<Rightarrow> (NodeType \<times> ChildRef list option) option" where
  "struct ns k = map_option (\<lambda>n. (type n, children n)) (map_of ns k)"

text \<open>
  \<open>fits ns t\<close>: the table holds the shape of \<open>t\<close>. Every node of the tree has an entry, a
  primitive has no subtrees, and the children list of an assembly names the roots of its
  subtrees, in order. Unlike \<open>represents\<close> it does not compare the other fields, so it
  is kept by every action that changes neither a tag nor a children list.
\<close>

fun fits :: "Nodes \<Rightarrow> NodeTree \<Rightarrow> bool" where
  "fits ns (NodeTree k n ts) =
     (case struct ns k of
        None \<Rightarrow> False
      | Some (ty, cs) \<Rightarrow>
          (if ty = primitive then ts = [] else cs = Some (map (\<lambda>t. Id (root_id t)) ts))
          \<and> list_all (fits ns) ts)"

text \<open>The identifiers of a list of trees.\<close>

abbreviation lids :: "NodeTree list \<Rightarrow> NodeId list" where
  "lids ts \<equiv> concat (map tree_ids ts)"

lemma tree_ids_nodes_of: "tree_ids t = map root_id (nodes_of t)"
  by (induction t) (simp add: map_concat comp_def cong: map_cong)

lemma self_in_nodes_of [simp]: "t \<in> set (nodes_of t)"
  by (cases t) simp

lemma nodes_of_subtree:
  "u \<in> set ts \<Longrightarrow> v \<in> set (nodes_of u) \<Longrightarrow> v \<in> set (nodes_of (NodeTree k n ts))"
  by auto

lemma nodes_of_trans:
  "u \<in> set (nodes_of t) \<Longrightarrow> v \<in> set (nodes_of u) \<Longrightarrow> v \<in> set (nodes_of t)"
proof (induction t)
  case (NodeTree k n ts)
  show ?case
  proof (cases "u = NodeTree k n ts")
    case True
    then show ?thesis using NodeTree.prems(2) by simp
  next
    case False
    then obtain w where w: "w \<in> set ts" "u \<in> set (nodes_of w)"
      using NodeTree.prems(1) by auto
    then have "v \<in> set (nodes_of w)" using NodeTree.IH NodeTree.prems(2) by blast
    then show ?thesis using w(1) by auto
  qed
qed

lemma ids_of_node_subset:
  "u \<in> set (nodes_of t) \<Longrightarrow> set (tree_ids u) \<subseteq> set (tree_ids t)"
  unfolding tree_ids_nodes_of using nodes_of_trans by auto



lemma fits_node: "fits ns t \<Longrightarrow> u \<in> set (nodes_of t) \<Longrightarrow> fits ns u"
proof (induction t)
  case (NodeTree k n ts)
  show ?case
  proof (cases "u = NodeTree k n ts")
    case True
    then show ?thesis using NodeTree.prems(1) by simp
  next
    case False
    then obtain w where w: "w \<in> set ts" "u \<in> set (nodes_of w)"
      using NodeTree.prems(2) by auto
    have "fits ns w" using NodeTree.prems(1) w(1) by (auto simp: list_all_iff split: option.splits)
    then show ?thesis using w NodeTree.IH by blast
  qed
qed

lemma fits_root_key: "fits ns t \<Longrightarrow> root_id t \<in> fst ` set ns"
  by (cases t) (auto simp: struct_def key_of_map_of split: option.splits)

lemma fits_keys: "fits ns t \<Longrightarrow> set (tree_ids t) \<subseteq> fst ` set ns"
  unfolding tree_ids_nodes_of using fits_node fits_root_key by auto

lemma fits_children:
  assumes "fits ns (NodeTree k n ts)"
  shows "\<exists>m. map_of ns k = Some m \<and> children_of m = map (\<lambda>t. Id (root_id t)) ts"
proof -
  from assms obtain m where m: "map_of ns k = Some m"
    and c: "if type m = primitive then ts = [] else children m = Some (map (\<lambda>t. Id (root_id t)) ts)"
    by (auto simp: struct_def split: option.splits)
  have "children_of m = map (\<lambda>t. Id (root_id t)) ts"
  proof (cases "type m = primitive")
    case True
    then show ?thesis using c by (simp add: children_of_def)
  next
    case False
    then have "type m = assembly" by (rule not_primitive)
    then show ?thesis using c False by (simp add: children_of_def)
  qed
  with m show ?thesis by blast
qed


text \<open>The tree with the nodes the table holds under its identifiers.\<close>

fun refill :: "Nodes \<Rightarrow> NodeTree \<Rightarrow> NodeTree" where
  "refill ns (NodeTree k n ts) = NodeTree k (the (map_of ns k)) (map (refill ns) ts)"

lemma root_id_refill [simp]: "root_id (refill ns t) = root_id t"
  by (cases t) simp

lemma tree_ids_refill [simp]: "tree_ids (refill ns t) = tree_ids t"
  by (induction t) (simp add: comp_def cong: map_cong)

lemma fits_represents: "fits ns t \<Longrightarrow> represents ns (refill ns t)"
proof (induction t)
  case (NodeTree k n ts)
  from NodeTree.prems obtain m where m: "map_of ns k = Some m"
    and c: "if type m = primitive then ts = [] else children m = Some (map (\<lambda>t. Id (root_id t)) ts)"
    and l: "list_all (fits ns) ts"
    by (auto simp: struct_def split: option.splits)
  have "list_all (represents ns) (map (refill ns) ts)"
    using l NodeTree.IH by (auto simp: list_all_iff)
  then show ?case using m c by (auto simp: comp_def)
qed


text \<open>
  \<open>graft p us t\<close>: the tree \<open>t\<close> with \<open>us\<close> as the subtrees of the node \<open>p\<close>. Adding,
  removing, moving and reordering a child are all of this form.
\<close>

fun graft :: "NodeId \<Rightarrow> NodeTree list \<Rightarrow> NodeTree \<Rightarrow> NodeTree" where
  "graft p us (NodeTree k n ts) = NodeTree k n (if k = p then us else map (graft p us) ts)"

lemma root_id_graft [simp]: "root_id (graft p us t) = root_id t"
  by (cases t) simp


lemma distinct_subtree:
  "distinct (tree_ids (NodeTree k n ts)) \<Longrightarrow> u \<in> set ts \<Longrightarrow> distinct (tree_ids u)"
proof -
  assume d: "distinct (tree_ids (NodeTree k n ts))" and u: "u \<in> set ts"
  then have "distinct (concat (map tree_ids ts))" by simp
  moreover have "tree_ids u \<in> set (map tree_ids ts)" using u by simp
  ultimately show ?thesis by (rule distinct_concat_member)
qed



lemma distinct_node:
  "distinct (tree_ids t) \<Longrightarrow> v \<in> set (nodes_of t) \<Longrightarrow> distinct (tree_ids v)"
proof (induction t)
  case (NodeTree k n ts)
  show ?case
  proof (cases "v = NodeTree k n ts")
    case True
    then show ?thesis using NodeTree.prems(1) by simp
  next
    case False
    then obtain w where w: "w \<in> set ts" "v \<in> set (nodes_of w)"
      using NodeTree.prems(2) by auto
    have "distinct (tree_ids w)" using NodeTree.prems(1) w(1) by (rule distinct_subtree)
    then show ?thesis using w NodeTree.IH by blast
  qed
qed

lemma node_with_id: "k \<in> set (tree_ids t) \<Longrightarrow> \<exists>n ts. NodeTree k n ts \<in> set (nodes_of t)"
proof -
  assume "k \<in> set (tree_ids t)"
  then obtain v where v: "v \<in> set (nodes_of t)" "root_id v = k"
    unfolding tree_ids_nodes_of by auto
  have "NodeTree (root_id v) (root_node v) (subtrees v) = v" by simp
  then have "NodeTree k (root_node v) (subtrees v) \<in> set (nodes_of t)" using v by simp
  then show ?thesis by blast
qed

text \<open>The identifiers of the children of the root of a tree.\<close>

definition child_ids :: "NodeTree \<Rightarrow> NodeId list" where
  "child_ids v = map root_id (subtrees v)"

lemma mset_lids:
  assumes "\<And>u. u \<in> set ts \<Longrightarrow>
             mset (tree_ids u) = add_mset (root_id u) (mset (concat (map child_ids (nodes_of u))))"
  shows "mset (lids ts)
           = mset (map root_id ts) + mset (concat (map child_ids (concat (map nodes_of ts))))"
  using assms by (induction ts) simp_all

lemma mset_tree_ids:
  "mset (tree_ids t) = add_mset (root_id t) (mset (concat (map child_ids (nodes_of t))))"
proof (induction t)
  case (NodeTree k n ts)
  have "mset (lids ts)
          = mset (map root_id ts) + mset (concat (map child_ids (concat (map nodes_of ts))))"
    by (rule mset_lids) (rule NodeTree.IH)
  moreover have "child_ids (NodeTree k n ts) = map root_id ts" by (simp add: child_ids_def)
  ultimately show ?case by simp
qed

lemma distinct_child_ids:
  assumes "distinct (tree_ids t)"
  shows "distinct (root_id t # concat (map child_ids (nodes_of t)))"
proof -
  have "mset (tree_ids t) = mset (root_id t # concat (map child_ids (nodes_of t)))"
    by (simp add: mset_tree_ids)
  then show ?thesis using assms by (metis mset_eq_imp_distinct_iff)
qed

lemma child_has_parent:
  assumes "k \<in> set (tree_ids t)" and "k \<noteq> root_id t"
  shows "\<exists>v\<in>set (nodes_of t). k \<in> set (child_ids v)"
proof -
  have "set (tree_ids t) = set (root_id t # concat (map child_ids (nodes_of t)))"
    by (rule mset_eq_setD) (simp add: mset_tree_ids)
  then show ?thesis using assms by auto
qed


lemma descendants_fits:
  assumes "fits ns v" and "distinct (tree_ids v)"
  shows "descendants ns (root_id v) = lids (subtrees v)"
proof -
  have "descendants ns (root_id (refill ns v)) = lids (subtrees (refill ns v))"
    using assms by (intro descendants_tree fits_represents) simp_all
  moreover have "lids (subtrees (refill ns v)) = lids (subtrees v)"
    by (cases v) (simp add: comp_def)
  ultimately show ?thesis by simp
qed


text \<open>
  \<open>tree_of r ns t\<close>: the table \<open>ns\<close> is the tree \<open>t\<close> with root \<open>r\<close>. The table holds the
  shape of \<open>t\<close>, its keys are distinct, and they are the identifiers of \<open>t\<close>, each once.
\<close>

definition tree_of :: "NodeId \<Rightarrow> Nodes \<Rightarrow> NodeTree \<Rightarrow> bool" where
  "tree_of r ns t =
     (fits ns t \<and> root_id t = r \<and> distinct (map fst ns) \<and> mset (tree_ids t) = mset (map fst ns))"

lemma tree_of_distinct: "tree_of r ns t \<Longrightarrow> distinct (tree_ids t)"
  unfolding tree_of_def by (metis mset_eq_imp_distinct_iff)

lemma tree_of_ids: "tree_of r ns t \<Longrightarrow> set (tree_ids t) = fst ` set ns"
  unfolding tree_of_def by (metis mset_eq_setD set_map)

lemma tree_of_fits: "tree_of r ns t \<Longrightarrow> fits ns t"
  by (simp add: tree_of_def)

lemma tree_of_node:
  "tree_of r ns t \<Longrightarrow> p \<in> fst ` set ns \<Longrightarrow> \<exists>n ts. NodeTree p n ts \<in> set (nodes_of t)"
  using tree_of_ids node_with_id by blast


lemma node_entry:
  assumes "fits ns t" and "NodeTree p n ts \<in> set (nodes_of t)"
  shows "\<exists>pn. map_of ns p = Some pn \<and> children_of pn = map (\<lambda>t. Id (root_id t)) ts"
  using fits_node [OF assms] by (rule fits_children)













lemma tree_parent:
  assumes T: "tree_of (rootId m) (nodes m) t" and fp: "findParent k m = Some p"
  obtains n as u bs pn where
    "NodeTree p n (as @ u # bs) \<in> set (nodes_of t)" and "root_id u = k"
    and "\<forall>w\<in>set (as @ bs). root_id w \<noteq> k"
    and "map_of (nodes m) p = Some pn" and "type pn = assembly"
    and "children pn = Some (map (\<lambda>t. Id (root_id t)) (as @ u # bs))"
proof -
  have dk: "distinct (map fst (nodes m))" using T by (simp add: tree_of_def)
  have d: "distinct (tree_ids t)" using T by (rule tree_of_distinct)
  from findParent_SomeD [OF fp dk] obtain pn
    where pn: "map_of (nodes m) p = Some pn" "Id k \<in> set (children_of pn)" by blast
  from children_of_nonempty [OF pn(2)]
  have ty: "type pn = assembly" and ch: "children pn = Some (children_of pn)" by simp_all
  have "p \<in> fst ` set (nodes m)" using pn(1) by (rule key_of_map_of)
  from tree_of_node [OF T this] obtain n ts where P: "NodeTree p n ts \<in> set (nodes_of t)"
    by blast
  from node_entry [OF tree_of_fits [OF T] P] pn(1)
  have co: "children_of pn = map (\<lambda>t. Id (root_id t)) ts" by auto
  then obtain u where u: "u \<in> set ts" "root_id u = k" using pn(2) by auto
  from u(1) obtain as bs where ts: "ts = as @ u # bs" by (auto dest: split_list)
  have "distinct (concat (map child_ids (nodes_of t)))"
    using distinct_child_ids [OF d] by simp
  moreover have "child_ids (NodeTree p n ts) \<in> set (map child_ids (nodes_of t))"
    using P by (simp only: set_map) (rule imageI)
  ultimately have "distinct (child_ids (NodeTree p n ts))" by (rule distinct_concat_member)
  then have "distinct (map root_id (as @ u # bs))" by (simp add: child_ids_def ts)
  then have "root_id u \<notin> root_id ` set (as @ bs)" by auto
  then have "\<forall>w\<in>set (as @ bs). root_id w \<noteq> k" using u(2) by (metis imageI)
  then show thesis using that [of n as u bs pn] P u(2) pn(1) ty ch co ts by simp
qed

lemma has_parent:
  assumes T: "tree_of (rootId m) (nodes m) t"
      and k: "k \<in> fst ` set (nodes m)" "k \<noteq> rootId m"
  shows "\<exists>p. findParent k m = Some p"
proof -
  have "k \<in> set (tree_ids t)" "k \<noteq> root_id t"
    using T k tree_of_ids by (auto simp: tree_of_def)
  from child_has_parent [OF this] obtain v
    where v: "v \<in> set (nodes_of t)" "k \<in> set (child_ids v)" by blast
  have "NodeTree (root_id v) (root_node v) (subtrees v) \<in> set (nodes_of t)" using v(1) by simp
  from node_entry [OF tree_of_fits [OF T] this] obtain pn
    where pn: "map_of (nodes m) (root_id v) = Some pn"
      "children_of pn = map (\<lambda>t. Id (root_id t)) (subtrees v)" by blast
  have "(root_id v, pn) \<in> set (nodes m)" using pn(1) by (rule map_of_SomeD)
  moreover have "Id k \<in> set (children_of pn)" using v(2) pn(2) by (auto simp: child_ids_def)
  ultimately have "find (\<lambda>(j, n). Id k \<in> set (children_of n)) (nodes m) \<noteq> None"
    by (auto simp: find_None_iff)
  then show ?thesis by (auto simp: findParent_def)
qed









lemma tree_ids_collapse: "tree_ids t = root_id t # lids (subtrees t)"
  by (cases t) simp








section \<open>Cascade delete\<close>

lemma root_no_parent:
  assumes T: "tree_of (rootId m) (nodes m) t"
  shows "findParent (rootId m) m = None"
proof (cases "findParent (rootId m) m")
  case None
  then show ?thesis .
next
  case (Some p)
  obtain n as u bs pn where
    P: "NodeTree p n (as @ u # bs) \<in> set (nodes_of t)" and uk: "root_id u = rootId m"
    and others: "\<forall>w\<in>set (as @ bs). root_id w \<noteq> rootId m"
    and pn: "map_of (nodes m) p = Some pn" and ty: "type pn = assembly"
    and ch: "children pn = Some (map (\<lambda>t. Id (root_id t)) (as @ u # bs))"
    by (rule tree_parent [OF T Some])
  have d: "distinct (tree_ids t)" using T by (rule tree_of_distinct)
  have r: "root_id t = rootId m" using T by (simp add: tree_of_def)
  have "root_id u \<in> set (child_ids (NodeTree p n (as @ u # bs)))" by (simp add: child_ids_def)
  then have "root_id u \<in> set (concat (map child_ids (nodes_of t)))" using P by auto
  then show ?thesis using distinct_child_ids [OF d] uk r by simp
qed

lemma deleted_ids:
  assumes T: "tree_of (rootId m) (nodes m) t" and fp: "findParent k m = Some p"
  shows "distinct (k # getDescendants k m)
         \<and> set (k # getDescendants k m) \<subseteq> fst ` set (nodes m)
         \<and> p \<notin> set (k # getDescendants k m)"
proof -
  obtain n as u bs pn where
    P: "NodeTree p n (as @ u # bs) \<in> set (nodes_of t)" and uk: "root_id u = k"
    and others: "\<forall>w\<in>set (as @ bs). root_id w \<noteq> k"
    and pn: "map_of (nodes m) p = Some pn" and ty: "type pn = assembly"
    and ch: "children pn = Some (map (\<lambda>t. Id (root_id t)) (as @ u # bs))"
    by (rule tree_parent [OF T fp])
  let ?ts = "as @ u # bs"
  have f: "fits (nodes m) t" using T by (rule tree_of_fits)
  have d: "distinct (tree_ids t)" using T by (rule tree_of_distinct)
  have ids: "set (tree_ids t) = fst ` set (nodes m)" using T by (rule tree_of_ids)
  have dp: "distinct (tree_ids (NodeTree p n ?ts))" using d P by (rule distinct_node)
  have fp': "fits (nodes m) (NodeTree p n ?ts)" using f P by (rule fits_node)
  have un: "u \<in> set (nodes_of (NodeTree p n ?ts))" by simp
  have fu: "fits (nodes m) u" using fp' un by (rule fits_node)
  have du: "distinct (tree_ids u)" using dp un by (rule distinct_node)
  have "getDescendants k m = lids (subtrees u)"
    using descendants_fits [OF fu du] uk by (simp add: getDescendants_def)
  then have del: "k # getDescendants k m = tree_ids u"
    using uk by (simp add: tree_ids_collapse [of u])
  have pu: "p \<notin> set (tree_ids u)" using dp by auto
  have sub: "set (tree_ids u) \<subseteq> fst ` set (nodes m)"
    using ids_of_node_subset [OF P] ids by auto
  show ?thesis unfolding del using du sub pu by simp
qed

text \<open>
  C6 (cascade delete), as amended. The table of nodes is a tree \<open>t\<close> with the root of the
  model as its root (\<open>tree_of\<close>; every state reached through valid actions is one, see
  \<open>reachable_valid_wf\<close> below), and no key is the empty string. For a node of the table
  that is not the root, with \<open>N\<close> descendants, \<^verbatim>\<open>DELETE_NODE\<close> returns a state in which
  the node and its descendants, which are \<open>N + 1\<close> distinct keys of the table, have no
  entry; the parent, which \<open>findParent\<close> finds and which is not among them, has the old
  children without the node; every other entry is as before; the table has \<open>N + 1\<close>
  entries less; the selection is cleared when the node was selected and kept otherwise.
  \<^verbatim>\<open>DELETE_NODE\<close> on the root leaves model and selection unchanged.
\<close>

theorem cascade_delete:
  fixes gen :: IdGen
  assumes "tree_of (rootId (model state)) (nodes (model state)) t"
      and "[] \<notin> fst ` set (nodes (model state))"
  shows "(map_of (nodes (model state)) nodeId = Some node \<and> nodeId \<noteq> rootId (model state)
          \<and> N = length (getDescendants nodeId (model state))
         \<longrightarrow> (\<exists>state' parent parentNode.
               modelReducer gen c state (DELETE_NODE nodeId) = Inr (state', c)
             \<and> findParent nodeId (model state) = Some parent
             \<and> map_of (nodes (model state)) parent = Some parentNode
             \<and> distinct (nodeId # getDescendants nodeId (model state))
             \<and> set (nodeId # getDescendants nodeId (model state))
                 \<subseteq> fst ` set (nodes (model state))
             \<and> parent \<notin> set (nodeId # getDescendants nodeId (model state))
             \<and> (\<forall>k. map_of (nodes (model state')) k =
                   (if k \<in> set (nodeId # getDescendants nodeId (model state)) then None
                    else if k = parent
                    then Some (parentNode\<lparr>children :=
                                 Some (filter (\<lambda>i. i \<noteq> Id nodeId) (children_of parentNode))\<rparr>)
                    else map_of (nodes (model state)) k))
             \<and> length (nodes (model state')) + (N + 1) = length (nodes (model state))
             \<and> rootId (model state') = rootId (model state)
             \<and> selectedNodeId (selection state')
                 = (if selectedNodeId (selection state) = Some nodeId then None
                    else selectedNodeId (selection state))
             \<and> hoveredNodeId (selection state') = hoveredNodeId (selection state)))
       \<and> (\<exists>state'. modelReducer gen c state (DELETE_NODE (rootId (model state)))
                           = Inr (state', c)
              \<and> model state' = model state \<and> selection state' = selection state)"
proof (intro conjI impI)
  let ?m = "model state"
  have dk: "distinct (map fst (nodes ?m))" using assms(1) by (simp add: tree_of_def)
  assume a: "map_of (nodes ?m) nodeId = Some node \<and> nodeId \<noteq> rootId ?m
          \<and> N = length (getDescendants nodeId ?m)"
  then have n: "map_of (nodes ?m) nodeId = Some node" and nr: "nodeId \<noteq> rootId ?m"
    and N: "N = length (getDescendants nodeId ?m)" by simp_all
  have "nodeId \<in> fst ` set (nodes ?m)" using n by (rule key_of_map_of)
  from has_parent [OF assms(1) this nr] obtain parent where
    f: "findParent nodeId ?m = Some parent" by blast
  from deleted_ids [OF assms(1) f]
  have di: "distinct (nodeId # getDescendants nodeId ?m)"
    and ex: "set (nodeId # getDescendants nodeId ?m) \<subseteq> fst ` set (nodes ?m)"
    and pn: "parent \<notin> set (nodeId # getDescendants nodeId ?m)" by simp_all
  from findParent_SomeD [OF f dk] obtain pn0 where "map_of (nodes ?m) parent = Some pn0"
    by blast
  then have "parent \<in> fst ` set (nodes ?m)" by (rule key_of_map_of)
  with assms(2) have ne: "parent \<noteq> []" by metis
  from delete_node_with_parent [OF dk n f ne, of gen c] obtain parentNode where
    p: "map_of (nodes ?m) parent = Some parentNode"
    and r: "modelReducer gen c state (DELETE_NODE nodeId)
               = Inr (saveToHistory state (deleted_state state nodeId parent parentNode), c)"
    by blast
  let ?d = "deleted_state state nodeId parent parentNode"
  have ex': "set (getDescendants nodeId ?m) \<subseteq> fst ` set (nodes ?m)" using ex by simp
  have nd: "nodeId \<notin> set (getDescendants nodeId ?m)" using di by simp
  have "card (set (getDescendants nodeId ?m)) = N" using di N by (simp add: distinct_card)
  then have l: "length (nodes (model ?d)) + (N + 1) = length (nodes ?m)"
    using length_deleted_state [OF dk n p pn ex' nd] by simp
  have m: "\<forall>k. map_of (nodes (model ?d)) k =
                   (if k \<in> set (nodeId # getDescendants nodeId ?m) then None
                    else if k = parent
                    then Some (parentNode\<lparr>children :=
                                 Some (filter (\<lambda>i. i \<noteq> Id nodeId) (children_of parentNode))\<rparr>)
                    else map_of (nodes ?m) k)"
    using pn by (auto simp: nodes_deleted_state)
  have s: "rootId (model ?d) = rootId ?m"
     "selectedNodeId (selection ?d)
                 = (if selectedNodeId (selection state) = Some nodeId then None
                    else selectedNodeId (selection state))"
     "hoveredNodeId (selection ?d) = hoveredNodeId (selection state)"
    by (simp_all add: deleted_state_def)
  show "\<exists>state' parent parentNode.
               modelReducer gen c state (DELETE_NODE nodeId) = Inr (state', c)
             \<and> findParent nodeId ?m = Some parent
             \<and> map_of (nodes ?m) parent = Some parentNode
             \<and> distinct (nodeId # getDescendants nodeId ?m)
             \<and> set (nodeId # getDescendants nodeId ?m) \<subseteq> fst ` set (nodes ?m)
             \<and> parent \<notin> set (nodeId # getDescendants nodeId ?m)
             \<and> (\<forall>k. map_of (nodes (model state')) k =
                   (if k \<in> set (nodeId # getDescendants nodeId ?m) then None
                    else if k = parent
                    then Some (parentNode\<lparr>children :=
                                 Some (filter (\<lambda>i. i \<noteq> Id nodeId) (children_of parentNode))\<rparr>)
                    else map_of (nodes ?m) k))
             \<and> length (nodes (model state')) + (N + 1) = length (nodes ?m)
             \<and> rootId (model state') = rootId ?m
             \<and> selectedNodeId (selection state')
                 = (if selectedNodeId (selection state) = Some nodeId then None
                    else selectedNodeId (selection state))
             \<and> hoveredNodeId (selection state') = hoveredNodeId (selection state)"
    apply (rule exI[of _ "saveToHistory state ?d"])
    apply (rule exI[of _ parent])
    apply (rule exI[of _ parentNode])
    apply (simp only: model_saveToHistory selection_saveToHistory)
    apply (intro conjI r f p di ex pn m l s)
    done
next
  have "findParent (rootId (model state)) (model state) = None"
    using assms(1) by (rule root_no_parent)
  then have "reduce_DELETE_NODE c state (rootId (model state)) = Inr (state, c)"
    by (simp add: reduce_DELETE_NODE_def truthy_def Let_def split: option.splits)
  then show "\<exists>state'. modelReducer gen c state (DELETE_NODE (rootId (model state)))
                           = Inr (state', c)
              \<and> model state' = model state \<and> selection state' = selection state"
    by (simp add: modelReducer_def)
qed

text \<open>
  Witness: in the nested example, a tree of three nodes, deleting the assembly \<open>''ni''\<close>,
  which has the one descendant \<open>''nii''\<close>, takes two of the three entries away; deleting
  the root changes nothing.
\<close>

definition example_tree :: NodeTree where
  "example_tree = NodeTree ''n'' example_root [example_subtree]"

theorem cascade_delete_witness:
  "tree_of (rootId (model example_nested)) (nodes (model example_nested)) example_tree
   \<and> [] \<notin> fst ` set (nodes (model example_nested))
   \<and> map_of (nodes (model example_nested)) ''ni'' = Some example_assembly
   \<and> ''ni'' \<noteq> rootId (model example_nested)
   \<and> (1::nat) = length (getDescendants ''ni'' (model example_nested))
   \<and> (\<exists>state'. modelReducer tally_ids 3 example_nested (DELETE_NODE ''ni'') = Inr (state', 3)
        \<and> findParent ''ni'' (model example_nested) = Some ''n''
        \<and> map_of (nodes (model state')) ''ni'' = None
        \<and> map_of (nodes (model state')) ''nii'' = None
        \<and> length (nodes (model state')) + 2 = length (nodes (model example_nested)))
   \<and> (\<exists>state'. modelReducer tally_ids 3 example_nested (DELETE_NODE (rootId (model example_nested)))
                   = Inr (state', 3)
        \<and> model state' = model example_nested \<and> selection state' = selection example_nested)"
proof -
  have k: "map fst (nodes (model example_nested)) = [''n'', ''ni'', ''nii'']" by code_simp
  have f: "fits (nodes (model example_nested)) example_tree"
    and r: "root_id example_tree = rootId (model example_nested)"
    and i: "tree_ids example_tree = [''n'', ''ni'', ''nii'']"
    by code_simp+
  have h1: "tree_of (rootId (model example_nested)) (nodes (model example_nested)) example_tree"
    unfolding tree_of_def using f r by (simp add: k i)
  have "[] \<notin> set (map fst (nodes (model example_nested)))" unfolding k by simp
  then have h2: "[] \<notin> fst ` set (nodes (model example_nested))" by simp
  have d: "getDescendants ''ni'' (model example_nested) = [''nii'']" by code_simp
  have p: "findParent ''ni'' (model example_nested) = Some ''n''" by code_simp
  have a: "map_of (nodes (model example_nested)) ''ni'' = Some example_assembly
          \<and> ''ni'' \<noteq> rootId (model example_nested)
          \<and> (1::nat) = length (getDescendants ''ni'' (model example_nested))"
    by code_simp
  note t = cascade_delete [OF h1 h2, where nodeId = "''ni''" and node = example_assembly
                             and N = 1 and gen = tally_ids and c = 3]
  from mp [OF conjunct1 [OF t] a] obtain state' parent parentNode where
    x: "modelReducer tally_ids 3 example_nested (DELETE_NODE ''ni'') = Inr (state', 3)"
       "findParent ''ni'' (model example_nested) = Some parent"
       "\<forall>k. map_of (nodes (model state')) k =
                   (if k \<in> set (''ni'' # getDescendants ''ni'' (model example_nested)) then None
                    else if k = parent
                    then Some (parentNode\<lparr>children :=
                                 Some (filter (\<lambda>i. i \<noteq> Id ''ni'') (children_of parentNode))\<rparr>)
                    else map_of (nodes (model example_nested)) k)"
       "length (nodes (model state')) + (1 + 1) = length (nodes (model example_nested))"
    by (elim exE conjE)
  have x1: "\<exists>state'. modelReducer tally_ids 3 example_nested (DELETE_NODE ''ni'') = Inr (state', 3)
        \<and> findParent ''ni'' (model example_nested) = Some ''n''
        \<and> map_of (nodes (model state')) ''ni'' = None
        \<and> map_of (nodes (model state')) ''nii'' = None
        \<and> length (nodes (model state')) + 2 = length (nodes (model example_nested))"
    using x(1) p spec [OF x(3), of "''ni''"] spec [OF x(3), of "''nii''"] x(4)
    by (intro exI[of _ state']) (simp add: d)
  show ?thesis
    using h1 h2 a x1 conjunct2 [OF t] by (intro conjI) simp_all
qed

text \<open>
  Examples of reachable states whose table is not a tree. \<^verbatim>\<open>UPDATE_NODE\<close> merges whatever
  fields it is given, a children list too; \<open>children_only cs\<close> is the update
  \<^verbatim>\<open>{children: cs}\<close>. In \<open>example_orphan\<close> the root \<open>''n''\<close> of the one-child example
  has been given the empty children list: its child \<open>''ni''\<close> is still in the table and
  has no parent. In \<open>example_inverted\<close> the node \<open>''ni''\<close> has then been given the
  children list \<^verbatim>\<open>['n']\<close>: the root is the child of \<open>''ni''\<close>. Neither table has a cycle.
\<close>

lemma initial_example: "createInitialState tally_ids 0 = (example_initial, 1)"
  by code_simp

lemma one_child_example:
  "modelReducer tally_ids 1 example_initial (ADD_ASSEMBLY ''n'' ''Assembly 1'')
     = Inr (example_one_child, 2)"
  by code_simp

lemma reachable_one_child: "reachable tally_ids example_one_child 2"
  by (rule reachable.step [OF reachable.init [OF initial_example] one_child_example])

definition children_only :: "ChildRef list \<Rightarrow> NodeUpdates" where
  "children_only cs =
     \<lparr>u_id = None, u_type = None, u_name = None, u_transform = None, u_visible = None,
      u_primitiveType = None, u_properties = None, u_color = None, u_children = Some cs\<rparr>"

definition example_orphan :: ModelState where
  "example_orphan =
     (case modelReducer tally_ids 2 example_one_child (UPDATE_NODE ''n'' (children_only [])) of
        Inr (state, c) \<Rightarrow> state
      | Inl e \<Rightarrow> example_initial)"

lemma orphan_example:
  "modelReducer tally_ids 2 example_one_child (UPDATE_NODE ''n'' (children_only []))
     = Inr (example_orphan, 2)"
  by code_simp

lemma reachable_orphan: "reachable tally_ids example_orphan 2"
  by (rule reachable.step [OF reachable_one_child orphan_example])

definition example_inverted :: ModelState where
  "example_inverted =
     (case modelReducer tally_ids 2 example_orphan
             (UPDATE_NODE ''ni'' (children_only [Id ''n''])) of
        Inr (state, c) \<Rightarrow> state
      | Inl e \<Rightarrow> example_initial)"

lemma inverted_example:
  "modelReducer tally_ids 2 example_orphan (UPDATE_NODE ''ni'' (children_only [Id ''n'']))
     = Inr (example_inverted, 2)"
  by code_simp

lemma reachable_inverted: "reachable tally_ids example_inverted 2"
  by (rule reachable.step [OF reachable_orphan inverted_example])

text \<open>
  Counterexample to C6 as stated, in both halves. In \<open>example_orphan\<close> the node \<open>''ni''\<close>
  exists and is not the root, \<open>findParent\<close> finds no parent for it, and \<^verbatim>\<open>DELETE_NODE\<close>
  leaves it in the table. In \<open>example_inverted\<close> \<open>findParent\<close> finds a parent of the
  root \<open>''n''\<close>, the reducer has no guard for the root, and \<^verbatim>\<open>DELETE_NODE\<close> on the root
  deletes it: the table is left with the one key \<open>''ni''\<close>.
\<close>

theorem delete_outside_a_tree:
  "reachable tally_ids example_orphan 2
   \<and> rootId (model example_orphan) = ''n''
   \<and> map fst (nodes (model example_orphan)) = [''n'', ''ni'']
   \<and> findParent ''ni'' (model example_orphan) = None
   \<and> getDescendants ''ni'' (model example_orphan) = []
   \<and> map_sum id (\<lambda>r. map fst (nodes (model (fst r))))
        (modelReducer tally_ids 2 example_orphan (DELETE_NODE ''ni'')) = Inr [''n'', ''ni'']
   \<and> reachable tally_ids example_inverted 2
   \<and> rootId (model example_inverted) = ''n''
   \<and> map fst (nodes (model example_inverted)) = [''n'', ''ni'']
   \<and> getChildren ''n'' (model example_inverted) = []
   \<and> getChildren ''ni'' (model example_inverted) = [Id ''n'']
   \<and> findParent ''n'' (model example_inverted) = Some ''ni''
   \<and> getDescendants ''n'' (model example_inverted) = []
   \<and> map_sum id (\<lambda>r. map fst (nodes (model (fst r))))
        (modelReducer tally_ids 2 example_inverted (DELETE_NODE ''n'')) = Inr [''ni'']"
proof -
  have "rootId (model example_orphan) = ''n''
   \<and> map fst (nodes (model example_orphan)) = [''n'', ''ni'']
   \<and> findParent ''ni'' (model example_orphan) = None
   \<and> getDescendants ''ni'' (model example_orphan) = []
   \<and> map_sum id (\<lambda>r. map fst (nodes (model (fst r))))
        (modelReducer tally_ids 2 example_orphan (DELETE_NODE ''ni'')) = Inr [''n'', ''ni'']"
    by code_simp
  moreover have "rootId (model example_inverted) = ''n''
   \<and> map fst (nodes (model example_inverted)) = [''n'', ''ni'']
   \<and> getChildren ''n'' (model example_inverted) = []
   \<and> getChildren ''ni'' (model example_inverted) = [Id ''n'']
   \<and> findParent ''n'' (model example_inverted) = Some ''ni''
   \<and> getDescendants ''n'' (model example_inverted) = []
   \<and> map_sum id (\<lambda>r. map fst (nodes (model (fst r))))
        (modelReducer tally_ids 2 example_inverted (DELETE_NODE ''n'')) = Inr [''ni'']"
    by code_simp
  ultimately show ?thesis using reachable_orphan reachable_inverted by simp
qed

section \<open>The tree invariant\<close>


text \<open>
  The actions that keep the tree. Every node the action names, as the node or as a parent,
  is a key of the table (\<open>present\<close>), which the specification asks of every action
  (\<^emph>\<open>node exists\<close>, \<^emph>\<open>parent exists\<close>). Three more conditions the reducer does not check:
  \<^verbatim>\<open>UPDATE_NODE\<close> must not carry the fields \<^verbatim>\<open>id\<close>, \<^verbatim>\<open>type\<close> or \<^verbatim>\<open>children\<close>;
  \<^verbatim>\<open>REORDER_CHILDREN\<close> must take out a child (the parent has children, and \<^verbatim>\<open>fromIndex\<close>
  is less than their number; a negative one counts from the end); \<^verbatim>\<open>MOVE_NODE\<close> must name
  a new parent that is not the parent of the node already.
\<close>

definition present :: "Model \<Rightarrow> NodeId \<Rightarrow> bool" where
  "present m k = (map_of (nodes m) k \<noteq> None)"

fun valid_action :: "Model \<Rightarrow> ModelAction \<Rightarrow> bool" where
  "valid_action m (ADD_PRIMITIVE parentId pt nm) = present m parentId"
| "valid_action m (ADD_ASSEMBLY parentId nm) = present m parentId"
| "valid_action m (DELETE_NODE nodeId) = present m nodeId"
| "valid_action m (UPDATE_NODE nodeId updates) =
     (present m nodeId \<and> u_id updates = None \<and> u_type updates = None
      \<and> u_children updates = None)"
| "valid_action m (UPDATE_TRANSFORM nodeId p) = present m nodeId"
| "valid_action m (REORDER_CHILDREN parentId fromIndex toIndex) =
     (present m parentId \<and> getChildren parentId m \<noteq> []
      \<and> fromIndex < int (length (getChildren parentId m)))"
| "valid_action m (MOVE_NODE nodeId newParentId) =
     (present m nodeId \<and> present m newParentId \<and> findParent nodeId m \<noteq> Some newParentId)"
| "valid_action m (SELECT_NODE nodeId) = True"
| "valid_action m (RENAME_NODE nodeId nm) = present m nodeId"
| "valid_action m (TOGGLE_VISIBILITY nodeId) = present m nodeId"
| "valid_action m (UPDATE_PRIMITIVE_PROPERTIES nodeId props) = present m nodeId"
| "valid_action m (DUPLICATE_NODE nodeId) = present m nodeId"
| "valid_action m UNDO = True"
| "valid_action m REDO = True"

































text \<open>The states reached from the initial state through valid actions.\<close>

inductive reachable_valid :: "IdGen \<Rightarrow> ModelState \<Rightarrow> nat \<Rightarrow> bool" for gen :: IdGen where
  init: "createInitialState gen c0 = (s, c) \<Longrightarrow> reachable_valid gen s c"
| step: "reachable_valid gen s c \<Longrightarrow> valid_action (model s) a
         \<Longrightarrow> modelReducer gen c s a = Inr (s', c') \<Longrightarrow> reachable_valid gen s' c'"


lemma reachable_valid_reachable: "reachable_valid gen s c \<Longrightarrow> reachable gen s c"
  by (induction rule: reachable_valid.induct) (auto intro: reachable.intros)












end
